theory Spec2Isabelle
  imports Complex_Main "HOL-Library.AList"
begin

section \<open>The rate limiter of \<open>rate_limiter.py\<close>\<close>

text \<open>
  The module \<open>rate_limiter.py\<close> defines the enumeration \<open>Units\<close> and the class
  \<open>RateLimiter\<close>.  Each method of the class is embedded as a function on an explicit
  limiter state; every raise of the source is a value \<open>Inl e\<close>.  The library objects the
  class relies on (\<open>datetime\<close>, \<open>timedelta\<close>, \<open>ConfigParser\<close>, \<open>str\<close>, \<open>int\<close>) are
  modelled by their documented behaviour, as far as the class uses them.
\<close>

subsection \<open>Exceptions\<close>

text \<open>
  The exceptions that can travel through the class.  \<open>OperationError\<close> stands for an
  exception (a subclass of \<open>Exception\<close>) raised by the wrapped operation, \<open>BaseError\<close>
  for one that derives from \<open>BaseException\<close> only (\<open>KeyboardInterrupt\<close>,
  \<open>SystemExit\<close>), and \<open>UnknownUnit\<close> for the \<open>Exception\<close> raised by \<open>__init_usage\<close>.
\<close>

datatype pyexc =
    KeyError
  | ValueError
  | TypeError
  | AttributeError
  | UnboundLocalError
  | OverflowError
  | DuplicateSectionError
  | DuplicateOptionError
  | UnknownUnit string
  | OperationError string
  | BaseError string

fun is_Exception :: "pyexc \<Rightarrow> bool" where
  "is_Exception (BaseError _) = False"
| "is_Exception _ = True"

subsection \<open>The enumeration \<open>Units\<close>\<close>

datatype Units = YEAR | MONTH | DAY | HOUR | MINUTE | SECOND

fun unit_value :: "Units \<Rightarrow> nat" where
  "unit_value YEAR = 0"
| "unit_value MONTH = 1"
| "unit_value DAY = 2"
| "unit_value HOUR = 3"
| "unit_value MINUTE = 4"
| "unit_value SECOND = 5"

fun unit_name :: "Units \<Rightarrow> string" where
  "unit_name YEAR = ''YEAR''"
| "unit_name MONTH = ''MONTH''"
| "unit_name DAY = ''DAY''"
| "unit_name HOUR = ''HOUR''"
| "unit_name MINUTE = ''MINUTE''"
| "unit_name SECOND = ''SECOND''"

text \<open>Iterating over the enumeration class yields its members in definition order.\<close>

definition all_Units :: "Units list" where
  "all_Units = [YEAR, MONTH, DAY, HOUR, MINUTE, SECOND]"

definition parse_unit :: "string \<Rightarrow> Units option" where
  "parse_unit string =
     (if string = ''year'' then Some YEAR
      else if string = ''month'' then Some MONTH
      else if string = ''day'' then Some DAY
      else if string = ''hour'' then Some HOUR
      else if string = ''minute'' then Some MINUTE
      else if string = ''second'' then Some SECOND
      else None)"

subsection \<open>Calendar dates and \<open>datetime\<close>\<close>

text \<open>
  A (naive) \<open>datetime\<close> object is the record of its seven attributes.  The proleptic
  Gregorian calendar of the library is modelled by the length of each month, the
  ordinal of a date (day 1 is 0001-01-01) and the step to the next and the previous
  day; the library accepts the years 1 to 9999.
\<close>

record datetime =
  year :: int
  month :: int
  day :: int
  hour :: int
  minute :: int
  second :: int
  microsecond :: int

definition is_leap :: "int \<Rightarrow> bool" where
  "is_leap y = (y mod 4 = 0 \<and> (y mod 100 \<noteq> 0 \<or> y mod 400 = 0))"

definition days_in_month :: "int \<Rightarrow> int \<Rightarrow> int" where
  "days_in_month y m =
     (if m = 2 then (if is_leap y then 29 else 28)
      else if m = 4 \<or> m = 6 \<or> m = 9 \<or> m = 11 then 30 else 31)"

definition days_before_year :: "int \<Rightarrow> int" where
  "days_before_year y =
     (y - 1) * 365 + (y - 1) div 4 - (y - 1) div 100 + (y - 1) div 400"

definition days_before_month :: "int \<Rightarrow> int \<Rightarrow> int" where
  "days_before_month y m =
     [0, 0, 31, 59, 90, 120, 151, 181, 212, 243, 273, 304, 334] ! nat m
       + (if 2 < m \<and> is_leap y then 1 else 0)"

definition ymd2ord :: "int \<Rightarrow> int \<Rightarrow> int \<Rightarrow> int" where
  "ymd2ord y m d = days_before_year y + days_before_month y m + d"

definition MINYEAR :: int where "MINYEAR = 1"
definition MAXYEAR :: int where "MAXYEAR = 9999"

definition valid_date :: "int \<Rightarrow> int \<Rightarrow> int \<Rightarrow> bool" where
  "valid_date y m d =
     (MINYEAR \<le> y \<and> y \<le> MAXYEAR \<and> 1 \<le> m \<and> m \<le> 12 \<and> 1 \<le> d \<and> d \<le> days_in_month y m)"

definition valid_datetime :: "datetime \<Rightarrow> bool" where
  "valid_datetime t =
     (valid_date (year t) (month t) (day t)
      \<and> 0 \<le> hour t \<and> hour t \<le> 23 \<and> 0 \<le> minute t \<and> minute t \<le> 59
      \<and> 0 \<le> second t \<and> second t \<le> 59
      \<and> 0 \<le> microsecond t \<and> microsecond t \<le> 999999)"

text \<open>The day after and the day before a date; \<open>None\<close> outside the supported years.\<close>

definition next_day :: "int \<times> int \<times> int \<Rightarrow> (int \<times> int \<times> int) option" where
  "next_day ymd =
     (case ymd of (y, m, d) \<Rightarrow>
        if d < days_in_month y m then Some (y, m, d + 1)
        else if m < 12 then Some (y, m + 1, 1)
        else if y < MAXYEAR then Some (y + 1, 1, 1)
        else None)"

definition prev_day :: "int \<times> int \<times> int \<Rightarrow> (int \<times> int \<times> int) option" where
  "prev_day ymd =
     (case ymd of (y, m, d) \<Rightarrow>
        if 1 < d then Some (y, m, d - 1)
        else if 1 < m then Some (y, m - 1, days_in_month y (m - 1))
        else if MINYEAR < y then Some (y - 1, 12, 31)
        else None)"

primrec iterate_day ::
  "(int \<times> int \<times> int \<Rightarrow> (int \<times> int \<times> int) option) \<Rightarrow> nat \<Rightarrow> int \<times> int \<times> int
     \<Rightarrow> (int \<times> int \<times> int) option" where
  "iterate_day f 0 ymd = Some ymd"
| "iterate_day f (Suc n) ymd =
     (case f ymd of None \<Rightarrow> None | Some ymd' \<Rightarrow> iterate_day f n ymd')"

definition shift_days :: "int \<Rightarrow> int \<times> int \<times> int \<Rightarrow> (int \<times> int \<times> int) option" where
  "shift_days n ymd =
     (if 0 \<le> n then iterate_day next_day (nat n) ymd
      else iterate_day prev_day (nat (- n)) ymd)"

text \<open>
  \<open>datetime(y, m, d, h, mi, s)\<close>, called on the six entries of a list: the constructor
  validates every field and raises \<open>ValueError\<close> when one is out of range; fewer than
  three or more than eight positional arguments are a \<open>TypeError\<close>.
\<close>

definition datetime_new :: "int list \<Rightarrow> pyexc + datetime" where
  "datetime_new args =
     (case args of
        [y, m, d, h, mi, s] \<Rightarrow>
          (let t = \<lparr>year = y, month = m, day = d, hour = h, minute = mi, second = s,
                    microsecond = 0\<rparr>
           in if valid_datetime t then Inr t else Inl ValueError)
      | _ \<Rightarrow> Inl TypeError)"

definition datetime_min :: datetime where
  "datetime_min =
     \<lparr>year = 1, month = 1, day = 1, hour = 0, minute = 0, second = 0, microsecond = 0\<rparr>"

definition toordinal :: "datetime \<Rightarrow> int" where
  "toordinal t = ymd2ord (year t) (month t) (day t)"

text \<open>
  \<open>timetuple()\<close>: year, month, day, hour, minute, second, weekday (Monday is 0), day
  of the year, and the daylight-saving flag, which is -1 for a naive datetime.
\<close>

definition timetuple :: "datetime \<Rightarrow> int list" where
  "timetuple t =
     [year t, month t, day t, hour t, minute t, second t,
      (toordinal t + 6) mod 7,
      days_before_month (year t) (month t) + day t,
      - 1]"

subsection \<open>\<open>timedelta\<close>\<close>

text \<open>
  A \<open>timedelta\<close> is a whole number of microseconds.  The constructor takes the keywords
  \<open>days\<close>, \<open>seconds\<close>, \<open>microseconds\<close>, \<open>milliseconds\<close>, \<open>minutes\<close>, \<open>hours\<close> and
  \<open>weeks\<close>; any other keyword is a \<open>TypeError\<close>.
\<close>

type_synonym timedelta = int

definition day_us :: int where
  "day_us = 86400000000"

definition timedelta_kw :: "string \<Rightarrow> int \<Rightarrow> pyexc + timedelta" where
  "timedelta_kw kw n =
     (if kw = ''days'' then Inr (n * day_us)
      else if kw = ''seconds'' then Inr (n * 1000000)
      else if kw = ''microseconds'' then Inr n
      else if kw = ''milliseconds'' then Inr (n * 1000)
      else if kw = ''minutes'' then Inr (n * 60000000)
      else if kw = ''hours'' then Inr (n * 3600000000)
      else if kw = ''weeks'' then Inr (n * 7 * day_us)
      else Inl TypeError)"

definition time_us :: "datetime \<Rightarrow> int" where
  "time_us t = ((hour t * 60 + minute t) * 60 + second t) * 1000000 + microsecond t"

text \<open>
  \<open>datetime + timedelta\<close>: the time of day plus the duration is split into whole days
  and a new time of day; the date moves by the whole days, and a result outside the
  supported years is an \<open>OverflowError\<close>.
\<close>

definition dt_add :: "datetime \<Rightarrow> timedelta \<Rightarrow> pyexc + datetime" where
  "dt_add t td =
     (let total = time_us t + td;
          r = total mod day_us
      in case shift_days (total div day_us) (year t, month t, day t) of
           None \<Rightarrow> Inl OverflowError
         | Some (y, m, d) \<Rightarrow>
             Inr \<lparr>year = y, month = m, day = d,
                  hour = r div 3600000000,
                  minute = r div 60000000 mod 60,
                  second = r div 1000000 mod 60,
                  microsecond = r mod 1000000\<rparr>)"

text \<open>\<open>datetime - datetime\<close>: the difference of the ordinals and of the times of day.\<close>

definition dt_sub :: "datetime \<Rightarrow> datetime \<Rightarrow> timedelta" where
  "dt_sub a b = (toordinal a - toordinal b) * day_us + (time_us a - time_us b)"

text \<open>
  \<open>total_seconds()\<close> divides the microseconds by \<open>10^6\<close>.  The result is a float in the
  source; the model keeps the exact quotient.
\<close>

definition total_seconds :: "timedelta \<Rightarrow> real" where
  "total_seconds td = real_of_int td / 1000000"

subsection \<open>Strings and numbers\<close>

text \<open>
  Strings are lists of 8-bit characters; \<open>lower\<close>, \<open>isdigit\<close>, \<open>int\<close> and \<open>str\<close> are
  modelled on ASCII text.  \<open>int\<close> accepts an optional sign followed by decimal digits
  (the values of a parsed configuration carry no surrounding blanks).
\<close>

definition char_lower :: "char \<Rightarrow> char" where
  "char_lower c =
     (case map_of (zip ''ABCDEFGHIJKLMNOPQRSTUVWXYZ'' ''abcdefghijklmnopqrstuvwxyz'') c of
        None \<Rightarrow> c
      | Some l \<Rightarrow> l)"

definition str_lower :: "string \<Rightarrow> string" where
  "str_lower s = map char_lower s"

definition is_digit :: "char \<Rightarrow> bool" where
  "is_digit c = (c \<in> set ''0123456789'')"

definition isdigit :: "string \<Rightarrow> bool" where
  "isdigit s = (s \<noteq> [] \<and> list_all is_digit s)"

definition digit_val :: "char \<Rightarrow> nat" where
  "digit_val c =
     (case map_of (zip ''0123456789'' [0, 1, 2, 3, 4, 5, 6, 7, 8, 9]) c of
        None \<Rightarrow> 0
      | Some d \<Rightarrow> d)"

definition dec_val :: "string \<Rightarrow> nat" where
  "dec_val s = foldl (\<lambda>a c. 10 * a + digit_val c) 0 s"

definition py_int :: "string \<Rightarrow> pyexc + int" where
  "py_int s =
     (case s of
        [] \<Rightarrow> Inl ValueError
      | c # r \<Rightarrow>
          if c = CHR ''-'' \<and> isdigit r then Inr (- int (dec_val r))
          else if c = CHR ''+'' \<and> isdigit r then Inr (int (dec_val r))
          else if isdigit s then Inr (int (dec_val s))
          else Inl ValueError)"

definition digit_char :: "nat \<Rightarrow> char" where
  "digit_char n = ''0123456789'' ! n"

fun str_nat :: "nat \<Rightarrow> string" where
  "str_nat n = (if n < 10 then [digit_char n] else str_nat (n div 10) @ [digit_char (n mod 10)])"

declare str_nat.simps [simp del]

definition py_str_int :: "int \<Rightarrow> string" where
  "py_str_int i = (if i < 0 then CHR ''-'' # str_nat (nat (- i)) else str_nat (nat i))"

text \<open>The format \<open>%0kd\<close> of a non-negative number: decimal digits, zero-padded to width \<open>k\<close>.\<close>

definition zero_pad :: "nat \<Rightarrow> int \<Rightarrow> string" where
  "zero_pad k i = replicate (k - length (str_nat (nat i))) (CHR ''0'') @ str_nat (nat i)"

text \<open>
  \<open>str(datetime)\<close> is \<open>isoformat(sep=' ')\<close>: \<open>YYYY-MM-DD HH:MM:SS\<close>, followed by
  \<open>.ffffff\<close> when the microsecond is not zero.
\<close>

definition str_datetime :: "datetime \<Rightarrow> string" where
  "str_datetime t =
     zero_pad 4 (year t) @ ''-'' @ zero_pad 2 (month t) @ ''-'' @ zero_pad 2 (day t) @ '' ''
       @ zero_pad 2 (hour t) @ '':'' @ zero_pad 2 (minute t) @ '':'' @ zero_pad 2 (second t)
       @ (if microsecond t = 0 then [] else ''.'' @ zero_pad 6 (microsecond t))"

text \<open>
  \<open>datetime.fromisoformat\<close>, on the two layouts that \<open>str\<close> produces (the library also
  reads other ISO 8601 layouts, which the class never writes; they are a \<open>ValueError\<close>
  here).  Fields out of range are a \<open>ValueError\<close>.
\<close>

definition field :: "nat \<Rightarrow> nat \<Rightarrow> string \<Rightarrow> string" where
  "field i n s = take n (drop i s)"

definition iso_layout :: "string \<Rightarrow> bool" where
  "iso_layout s =
     ((length s = 19 \<or> length s = 26)
      \<and> isdigit (field 0 4 s) \<and> s ! 4 = CHR ''-''
      \<and> isdigit (field 5 2 s) \<and> s ! 7 = CHR ''-''
      \<and> isdigit (field 8 2 s) \<and> s ! 10 = CHR '' ''
      \<and> isdigit (field 11 2 s) \<and> s ! 13 = CHR '':''
      \<and> isdigit (field 14 2 s) \<and> s ! 16 = CHR '':''
      \<and> isdigit (field 17 2 s)
      \<and> (length s = 26 \<longrightarrow> s ! 19 = CHR ''.'' \<and> isdigit (field 20 6 s)))"

definition fromisoformat :: "string \<Rightarrow> pyexc + datetime" where
  "fromisoformat s =
     (if iso_layout s then
        (let t = \<lparr>year = int (dec_val (field 0 4 s)),
                  month = int (dec_val (field 5 2 s)),
                  day = int (dec_val (field 8 2 s)),
                  hour = int (dec_val (field 11 2 s)),
                  minute = int (dec_val (field 14 2 s)),
                  second = int (dec_val (field 17 2 s)),
                  microsecond = (if length s = 26 then int (dec_val (field 20 6 s)) else 0)\<rparr>
         in if valid_datetime t then Inr t else Inl ValueError)
      else Inl ValueError)"

subsection \<open>\<open>ConfigParser\<close>\<close>

text \<open>
  A parser object holds its named sections in order, each an ordered mapping from option
  names to string values.  Option names are case-insensitive: the parser lower-cases
  them when it reads a file, on every lookup and on every store.  The model covers
  configurations without entries in the \<open>DEFAULT\<close> section and without the
  interpolation character \<open>%\<close> in values.  A file is represented by the sections it
  holds, in order, with the option lines of each.
\<close>

type_synonym options = "(string \<times> string) list"
type_synonym config = "(string \<times> options) list"

definition sections :: "config \<Rightarrow> string list" where
  "sections c = map fst c"

text \<open>
  \<open>read\<close>: a missing file is skipped silently and leaves the parser empty; a repeated
  section or a repeated option within a section is an error (the parser is strict).
\<close>

definition config_read :: "config option \<Rightarrow> pyexc + config" where
  "config_read file =
     (case file of
        None \<Rightarrow> Inr []
      | Some raw \<Rightarrow>
          if \<not> distinct (map fst raw) then Inl DuplicateSectionError
          else if \<not> list_all (\<lambda>(name, opts). distinct (map (str_lower \<circ> fst) opts)) raw
            then Inl DuplicateOptionError
          else Inr (map (\<lambda>(name, opts). (name, map (\<lambda>(k, v). (str_lower k, v)) opts)) raw))"

text \<open>\<open>config[name] = dict()\<close> empties the section in place, or appends an empty one.\<close>

definition clear_section :: "string \<Rightarrow> config \<Rightarrow> config" where
  "clear_section name c = AList.update name [] c"

text \<open>\<open>key in config[name]\<close>, \<open>config[name][key]\<close> and \<open>config[name][key] = value\<close>.\<close>

definition has_option :: "options \<Rightarrow> string \<Rightarrow> bool" where
  "has_option opts key = (map_of opts (str_lower key) \<noteq> None)"

definition get_option :: "options \<Rightarrow> string \<Rightarrow> pyexc + string" where
  "get_option opts key =
     (case map_of opts (str_lower key) of None \<Rightarrow> Inl KeyError | Some v \<Rightarrow> Inr v)"

definition set_option :: "string \<Rightarrow> string \<Rightarrow> string \<Rightarrow> config \<Rightarrow> pyexc + config" where
  "set_option name key v c =
     (case map_of c name of
        None \<Rightarrow> Inl KeyError
      | Some opts \<Rightarrow> Inr (AList.update name (AList.update (str_lower key) v opts) c))"

text \<open>
  The file store: the configuration written at each path, if any.  Opening the
  configuration file for writing is taken to succeed, and reading a file gives back
  the sections that were written to it.
\<close>

type_synonym files = "string \<Rightarrow> config option"

subsection \<open>The class \<open>RateLimiter\<close>\<close>

text \<open>
  The attributes of a limiter.  \<open>usage\<close> is a Python dictionary: it is kept as an
  association list in insertion order, because \<open>request\<close> iterates over it.
\<close>

record limiter =
  cfg_file :: string
  config :: config
  usage :: "(Units \<times> int) list"
  latest_time :: datetime

text \<open>
  \<open>__init_usage\<close>: every option of \<open>LIMITS\<close> must name a unit, whose usage starts at 0.
\<close>

fun init_usage_loop :: "string list \<Rightarrow> (Units \<times> int) list \<Rightarrow> pyexc + (Units \<times> int) list" where
  "init_usage_loop [] us = Inr us"
| "init_usage_loop (param # rest) us =
     (case parse_unit param of
        Some unit \<Rightarrow> init_usage_loop rest (AList.update unit 0 us)
      | None \<Rightarrow> Inl (UnknownUnit param))"

definition init_usage :: "limiter \<Rightarrow> pyexc + limiter" where
  "init_usage s =
     (case map_of (config s) ''LIMITS'' of
        None \<Rightarrow> Inl KeyError
      | Some limits \<Rightarrow>
          (case init_usage_loop (map fst limits) (usage s) of
             Inl e \<Rightarrow> Inl e
           | Inr us \<Rightarrow> Inr (s\<lparr>usage := us\<rparr>)))"

text \<open>
  The loop of \<open>__init__\<close> over the items of \<open>USAGE\<close>: a unit name with a digit string
  sets the usage of the unit; every other item is skipped (the source prints a message
  for some of them, which the model does not record).
\<close>

fun load_usage :: "options \<Rightarrow> (Units \<times> int) list \<Rightarrow> pyexc + (Units \<times> int) list" where
  "load_usage [] us = Inr us"
| "load_usage ((key, v) # rest) us =
     (case parse_unit key of
        Some unit \<Rightarrow>
          if isdigit v
          then (case py_int v of
                  Inl e \<Rightarrow> Inl e
                | Inr n \<Rightarrow> load_usage rest (AList.update unit n us))
          else load_usage rest us
      | None \<Rightarrow> load_usage rest us)"

text \<open>
  \<open>__init__(cfg_file)\<close>, given the file store and the reading of the clock.  The
  constructor reads the clock at most once.
\<close>

definition init :: "string option \<Rightarrow> files \<Rightarrow> datetime \<Rightarrow> pyexc + limiter" where
  "init cfg fs now =
     (case cfg of
        None \<Rightarrow>
          Inr \<lparr>cfg_file = ''limits.ini'',
               config = clear_section ''USAGE'' (clear_section ''LIMITS'' []),
               usage = [], latest_time = now\<rparr>
      | Some path \<Rightarrow>
          (case config_read (fs path) of
             Inl e \<Rightarrow> Inl e
           | Inr c0 \<Rightarrow>
               (let c1 = (if ''LIMITS'' \<notin> set (sections c0) then clear_section ''USAGE'' c0
                          else c0)
                in case map_of c1 ''USAGE'' of
                     Some opts \<Rightarrow>
                       (case (if has_option opts ''latest_time''
                              then (case get_option opts ''latest_time'' of
                                      Inl e \<Rightarrow> Inl e
                                    | Inr lt \<Rightarrow> fromisoformat lt)
                              else Inr now) of
                          Inl e \<Rightarrow> Inl e
                        | Inr t \<Rightarrow>
                            (case load_usage opts [] of
                               Inl e \<Rightarrow> Inl e
                             | Inr us \<Rightarrow>
                                 Inr \<lparr>cfg_file = path, config = c1, usage = us,
                                      latest_time = t\<rparr>))
                   | None \<Rightarrow>
                       init_usage \<lparr>cfg_file = path, config = clear_section ''USAGE'' c1,
                                   usage = [], latest_time = now\<rparr>)))"

text \<open>
  \<open>update_limits(**kwargs)\<close>.  The keyword arguments are strings paired with Python
  objects; \<open>value is int\<close> holds for the class \<open>int\<close> itself only.  In the store branch
  the right-hand side is evaluated first, then \<open>self.config['LIMITS']\<close>, then
  \<open>key.name\<close>, which a string does not have.
\<close>

datatype pyval = PyInt int | PyStr string | PyBool bool | PyNone | PyClassInt

definition is_int :: "pyval \<Rightarrow> bool" where
  "is_int v = (v = PyClassInt)"

fun py_str :: "pyval \<Rightarrow> string" where
  "py_str (PyInt i) = py_str_int i"
| "py_str (PyStr s) = s"
| "py_str (PyBool b) = (if b then ''True'' else ''False'')"
| "py_str PyNone = ''None''"
| "py_str PyClassInt = ''<class 'int'>''"

definition str_attr_name :: "string \<Rightarrow> pyexc + string" where
  "str_attr_name key = Inl AttributeError"

fun update_limits_loop :: "(string \<times> pyval) list \<Rightarrow> config \<Rightarrow> pyexc + config" where
  "update_limits_loop [] c = Inr c"
| "update_limits_loop ((key, v) # rest) c =
     (if parse_unit key \<noteq> None \<and> is_int v then
        (let rhs = py_str v in
         case map_of c ''LIMITS'' of
           None \<Rightarrow> Inl KeyError
         | Some limits \<Rightarrow>
             (case str_attr_name key of
                Inl e \<Rightarrow> Inl e
              | Inr name \<Rightarrow>
                  (case set_option ''LIMITS'' name rhs c of
                     Inl e \<Rightarrow> Inl e
                   | Inr c' \<Rightarrow> update_limits_loop rest c')))
      else update_limits_loop rest c)"

definition update_limits ::
  "(string \<times> pyval) list \<Rightarrow> limiter \<Rightarrow> files \<Rightarrow> pyexc + limiter \<times> files" where
  "update_limits kwargs s fs =
     (case update_limits_loop kwargs (config s) of
        Inl e \<Rightarrow> Inl e
      | Inr c \<Rightarrow> Inr (s\<lparr>config := c\<rparr>, fs(cfg_file s \<mapsto> c)))"

text \<open>\<open>write_usage()\<close>: the usage goes into the section \<open>USAGE\<close>, and the file is rewritten.\<close>

fun write_usage_loop :: "(Units \<times> int) list \<Rightarrow> config \<Rightarrow> pyexc + config" where
  "write_usage_loop [] c = Inr c"
| "write_usage_loop ((key, v) # rest) c =
     (case set_option ''USAGE'' (unit_name key) (py_str_int v) c of
        Inl e \<Rightarrow> Inl e
      | Inr c' \<Rightarrow> write_usage_loop rest c')"

definition write_usage :: "limiter \<Rightarrow> files \<Rightarrow> pyexc + limiter \<times> files" where
  "write_usage s fs =
     (case set_option ''USAGE'' ''latest_time'' (str_datetime (latest_time s)) (config s) of
        Inl e \<Rightarrow> Inl e
      | Inr c1 \<Rightarrow>
          (case write_usage_loop (usage s) c1 of
             Inl e \<Rightarrow> Inl e
           | Inr c2 \<Rightarrow> Inr (s\<lparr>config := c2\<rparr>, fs(cfg_file s \<mapsto> c2))))"

text \<open>
  \<open>__calculate_cooldown(unit)\<close>: the list starts as the first six entries of
  \<open>datetime.min.timetuple()\<close>, and the loop over all of \<open>Units\<close> overwrites each entry
  with the one of \<open>latest_time\<close>.
\<close>

definition calculate_cooldown :: "Units \<Rightarrow> limiter \<Rightarrow> pyexc + real" where
  "calculate_cooldown unit s =
     (let next_increment =
            foldl (\<lambda>ni u. ni[unit_value u := timetuple (latest_time s) ! unit_value u])
              (take 6 (timetuple datetime_min)) all_Units
      in case datetime_new next_increment of
           Inl e \<Rightarrow> Inl e
         | Inr ni \<Rightarrow>
             (case (case unit of
                      YEAR \<Rightarrow> timedelta_kw ''years'' 1
                    | MONTH \<Rightarrow> timedelta_kw ''months'' 1
                    | DAY \<Rightarrow> timedelta_kw ''days'' 1
                    | HOUR \<Rightarrow> timedelta_kw ''hours'' 1
                    | MINUTE \<Rightarrow> timedelta_kw ''minutes'' 1
                    | SECOND \<Rightarrow> timedelta_kw ''seconds'' 1) of
                Inl e \<Rightarrow> Inl e
              | Inr td \<Rightarrow>
                  (case dt_add ni td of
                     Inl e \<Rightarrow> Inl e
                   | Inr ni' \<Rightarrow> Inr (total_seconds (dt_sub ni' (latest_time s))))))"

text \<open>\<open>cooldown()\<close>: the first option of \<open>LIMITS\<close> that names a unit at or over its limit.\<close>

fun cooldown_loop :: "string list \<Rightarrow> options \<Rightarrow> limiter \<Rightarrow> pyexc + real" where
  "cooldown_loop [] limits s = Inr 0"
| "cooldown_loop (unit # rest) limits s =
     (case parse_unit unit of
        None \<Rightarrow> cooldown_loop rest limits s
      | Some u \<Rightarrow>
          (case map_of (usage s) u of
             None \<Rightarrow> Inl KeyError
           | Some n \<Rightarrow>
               (case get_option limits unit of
                  Inl e \<Rightarrow> Inl e
                | Inr v \<Rightarrow>
                    (case py_int v of
                       Inl e \<Rightarrow> Inl e
                     | Inr m \<Rightarrow>
                         if n \<ge> m then calculate_cooldown u s
                         else cooldown_loop rest limits s))))"

definition cooldown :: "limiter \<Rightarrow> pyexc + real" where
  "cooldown s =
     (case map_of (config s) ''LIMITS'' of
        None \<Rightarrow> Inl KeyError
      | Some limits \<Rightarrow> cooldown_loop (map fst limits) limits s)"

text \<open>
  \<open>__is_after(unit)\<close>, given the reading of the clock.  The \<open>for\<close> loop runs \<open>i\<close> over
  \<open>range(unit.value)\<close>; its \<open>else\<close> clause runs when the loop is exhausted and reads
  \<open>i\<close>, which is unbound when the range was empty.
\<close>

fun is_after_loop :: "int list \<Rightarrow> int list \<Rightarrow> nat list \<Rightarrow> nat option \<Rightarrow> pyexc + bool" where
  "is_after_loop current_time latest [] None = Inl UnboundLocalError"
| "is_after_loop current_time latest [] (Some i) =
     (if current_time ! (i + 1) = latest ! (i + 1) then Inr False else Inr True)"
| "is_after_loop current_time latest (i # rest) bound =
     (if current_time ! i < latest ! i then Inr False
      else is_after_loop current_time latest rest (Some i))"

definition is_after :: "Units \<Rightarrow> limiter \<Rightarrow> datetime \<Rightarrow> pyexc + bool" where
  "is_after unit s now =
     is_after_loop (timetuple now) (timetuple (latest_time s)) [0..<unit_value unit] None"

text \<open>\<open>__reset_usage(unit)\<close>: the loop runs over \<open>reversed(Units)\<close> and breaks at \<open>unit\<close>.\<close>

fun reset_usage_loop :: "Units list \<Rightarrow> Units \<Rightarrow> (Units \<times> int) list \<Rightarrow> (Units \<times> int) list" where
  "reset_usage_loop [] unit us = us"
| "reset_usage_loop (u # rest) unit us =
     (if map_of us u = None then reset_usage_loop rest unit us
      else if u = unit then AList.update u 0 us
      else reset_usage_loop rest unit (AList.update u 0 us))"

definition reset_usage :: "Units \<Rightarrow> limiter \<Rightarrow> limiter" where
  "reset_usage unit s = s\<lparr>usage := reset_usage_loop (rev all_Units) unit (usage s)\<rparr>"

text \<open>
  \<open>request(func, ...)\<close>.  The call of the wrapped operation is given by its outcome,
  \<open>Inl e\<close> when it raises and \<open>Inr output\<close> when it returns.  \<open>clock i\<close> is the reading
  of the clock at the \<open>i\<close>-th call of \<open>datetime.now()\<close> within the method.  The handler
  catches \<open>Exception\<close> (also one raised by the accounting loop), writes the usage and
  raises again; the attributes keep what the loop had done by then.
\<close>

fun request_loop ::
  "(nat \<Rightarrow> datetime) \<Rightarrow> nat \<Rightarrow> Units list \<Rightarrow> limiter \<Rightarrow> pyexc option \<times> limiter" where
  "request_loop clock i [] s = (None, s)"
| "request_loop clock i (unit # rest) s =
     (case is_after unit s (clock i) of
        Inl e \<Rightarrow> (Some e, s)
      | Inr after \<Rightarrow>
          (let s1 = (if after then reset_usage unit s else s)
           in case map_of (usage s1) unit of
                None \<Rightarrow> (Some KeyError, s1)
              | Some n \<Rightarrow>
                  request_loop clock (Suc i) rest
                    (s1\<lparr>usage := AList.update unit (n + 1) (usage s1)\<rparr>)))"

definition request_except ::
  "pyexc \<Rightarrow> limiter \<Rightarrow> files \<Rightarrow> (pyexc + 'a) \<times> limiter \<times> files" where
  "request_except e s fs =
     (if is_Exception e then
        (case write_usage s fs of
           Inl e' \<Rightarrow> (Inl e', s, fs)
         | Inr (s', fs') \<Rightarrow> (Inl e, s', fs'))
      else (Inl e, s, fs))"

definition request ::
  "pyexc + 'a \<Rightarrow> (nat \<Rightarrow> datetime) \<Rightarrow> limiter \<Rightarrow> files \<Rightarrow> (pyexc + 'a) \<times> limiter \<times> files" where
  "request func clock s fs =
     (case func of
        Inl e \<Rightarrow> request_except e s fs
      | Inr output \<Rightarrow>
          (case request_loop clock 0 (map fst (usage s)) s of
             (Some e, s1) \<Rightarrow> request_except e s1 fs
           | (None, s1) \<Rightarrow>
               (Inr output, s1\<lparr>latest_time := clock (length (usage s))\<rparr>, fs)))"

subsection \<open>Sequences of operations\<close>

text \<open>
  \<open>reaches s0 s\<close>: the limiter is in state \<open>s\<close> after some sequence of the public
  operations \<open>update_limits\<close>, \<open>write_usage\<close> (also run by \<open>__exit__\<close>) and \<open>request\<close>
  on the state \<open>s0\<close>, whatever the file store, the clock and the wrapped operations do
  (\<open>cooldown\<close> changes nothing).  A call of \<open>update_limits\<close> or \<open>write_usage\<close> that
  raises leaves the attributes as they were.
\<close>

inductive reaches :: "limiter \<Rightarrow> limiter \<Rightarrow> bool" where
  start: "reaches s0 s0"
| after_update_limits:
    "reaches s0 s \<Longrightarrow> update_limits kwargs s fs = Inr (s', fs') \<Longrightarrow> reaches s0 s'"
| after_write_usage:
    "reaches s0 s \<Longrightarrow> write_usage s fs = Inr (s', fs') \<Longrightarrow> reaches s0 s'"
| after_request:
    "reaches s0 s \<Longrightarrow> request (func :: pyexc + unit) clock s fs = (r, s', fs')
       \<Longrightarrow> reaches s0 s'"

text \<open>
  \<open>requests clocks s fs\<close>: one successful \<open>request\<close> for each entry of \<open>clocks\<close> (the
  clock during that call); \<open>None\<close> as soon as one of them raises.
\<close>

fun requests :: "(nat \<Rightarrow> datetime) list \<Rightarrow> limiter \<Rightarrow> files \<Rightarrow> (limiter \<times> files) option" where
  "requests [] s fs = Some (s, fs)"
| "requests (clock # rest) s fs =
     (case request (Inr ()) clock s fs of
        (Inl e, s', fs') \<Rightarrow> None
      | (Inr output, s', fs') \<Rightarrow> requests rest s' fs')"

subsection \<open>The properties of the specification\<close>


text \<open>
  The limits are respected: the usage count of every unit that \<open>LIMITS\<close> names is at
  most the configured maximum.
\<close>

definition within_limit :: "limiter \<Rightarrow> options \<Rightarrow> string \<Rightarrow> bool" where
  "within_limit s limits key =
     (case parse_unit key of
        None \<Rightarrow> True
      | Some u \<Rightarrow>
          (case map_of (usage s) u of
             None \<Rightarrow> True
           | Some n \<Rightarrow>
               (case get_option limits key of
                  Inl e \<Rightarrow> True
                | Inr v \<Rightarrow> (case py_int v of Inl e \<Rightarrow> True | Inr m \<Rightarrow> n \<le> m))))"

definition within_limits :: "limiter \<Rightarrow> bool" where
  "within_limits s =
     (case map_of (config s) ''LIMITS'' of
        None \<Rightarrow> True
      | Some limits \<Rightarrow> list_all (within_limit s limits) (map fst limits))"


definition tracked :: "limiter \<Rightarrow> Units \<Rightarrow> bool" where
  "tracked s u = (map_of (usage s) u \<noteq> None)"



text \<open>
  Facts that hold of the attributes of every limiter: a dictionary has each key once,
  the usage counts are not negative, and the section \<open>USAGE\<close> exists.
\<close>

definition usage_ok :: "(Units \<times> int) list \<Rightarrow> bool" where
  "usage_ok us = (distinct (map fst us) \<and> list_all (\<lambda>p. 0 \<le> snd p) us)"

definition sane :: "limiter \<Rightarrow> bool" where
  "sane s = (usage_ok (usage s) \<and> map_of (config s) ''USAGE'' \<noteq> None)"

text \<open>
  What the parser guarantees of a configuration (section names occur once, option names
  occur once per section and are in lower case), and the state in which the usage can
  be written and read back: on top of that, the section \<open>LIMITS\<close> exists, every unit
  with a digit string in \<open>USAGE\<close> is tracked, and the last operation time is a valid
  datetime.
\<close>

definition wf_options :: "options \<Rightarrow> bool" where
  "wf_options opts = (distinct (map fst opts) \<and> list_all (\<lambda>p. str_lower (fst p) = fst p) opts)"

definition wf_config :: "config \<Rightarrow> bool" where
  "wf_config c = (distinct (map fst c) \<and> list_all (\<lambda>p. wf_options (snd p)) c)"

definition usage_loaded :: "limiter \<Rightarrow> bool" where
  "usage_loaded s =
     (case map_of (config s) ''USAGE'' of
        None \<Rightarrow> False
      | Some opts \<Rightarrow>
          list_all (\<lambda>p. case parse_unit (fst p) of
                          None \<Rightarrow> True
                        | Some u \<Rightarrow> if isdigit (snd p) then tracked s u else True) opts)"

definition persistable :: "limiter \<Rightarrow> bool" where
  "persistable s =
     (usage_ok (usage s) \<and> wf_config (config s) \<and> ''LIMITS'' \<in> set (sections (config s))
      \<and> usage_loaded s \<and> valid_datetime (latest_time s))"

subsection \<open>Example inputs\<close>

definition noon :: datetime where
  "noon = \<lparr>year = 2024, month = 1, day = 1, hour = 12, minute = 0, second = 0,
            microsecond = 0\<rparr>"

definition new_years_eve :: datetime where
  "new_years_eve = \<lparr>year = 2024, month = 12, day = 31, hour = 23, minute = 59, second = 59,
                     microsecond = 0\<rparr>"

definition new_year :: datetime where
  "new_year = \<lparr>year = 2025, month = 1, day = 1, hour = 0, minute = 0, second = 0,
                microsecond = 0\<rparr>"

text \<open>A limiter with five requests allowed per day, all five used.\<close>

definition day_limiter :: "datetime \<Rightarrow> limiter" where
  "day_limiter t =
     \<lparr>cfg_file = ''limits.cfg'',
      config = [(''LIMITS'', [(''day'', ''5'')]), (''USAGE'', [])],
      usage = [(DAY, 5)],
      latest_time = t\<rparr>"

definition no_files :: files where
  "no_files = (\<lambda>path. None)"

text \<open>A file with persisted usage and no section \<open>LIMITS\<close>.\<close>

definition usage_only_file :: config where
  "usage_only_file =
     [(''USAGE'', [(''latest_time'', ''2024-01-01 12:00:00''), (''day'', ''5'')])]"

text \<open>Files holding limits and usage, and the limiters the constructor makes of them.\<close>

definition day_file :: config where
  "day_file =
     [(''LIMITS'', [(''day'', ''5'')]),
      (''USAGE'', [(''latest_time'', ''2024-01-01 12:00:00''), (''day'', ''5'')])]"

definition loaded_limiter :: limiter where
  "loaded_limiter =
     \<lparr>cfg_file = ''limits.cfg'', config = day_file, usage = [(DAY, 5)], latest_time = noon\<rparr>"




text \<open>A limit of two requests per minute.\<close>

definition minute_file :: config where
  "minute_file = [(''LIMITS'', [(''minute'', ''2'')])]"

definition minute_limiter :: "int \<Rightarrow> limiter" where
  "minute_limiter n =
     \<lparr>cfg_file = ''limits.cfg'',
      config = [(''LIMITS'', [(''minute'', ''2'')]), (''USAGE'', [])],
      usage = [(MINUTE, n)],
      latest_time = noon\<rparr>"

text \<open>A later clock reading, and limiters without limits and with a counted request.\<close>

definition one_pm :: datetime where
  "one_pm = \<lparr>year = 2024, month = 1, day = 1, hour = 13, minute = 0, second = 0,
              microsecond = 250000\<rparr>"

definition unlimited_limiter :: "options \<Rightarrow> datetime \<Rightarrow> limiter" where
  "unlimited_limiter opts t =
     \<lparr>cfg_file = ''limits.cfg'', config = [(''USAGE'', opts)], usage = [], latest_time = t\<rparr>"

definition counted_limiter :: "options \<Rightarrow> limiter" where
  "counted_limiter opts =
     \<lparr>cfg_file = ''limits.cfg'',
      config = [(''LIMITS'', [(''day'', ''5'')]), (''USAGE'', opts)],
      usage = [(DAY, 6)],
      latest_time = one_pm\<rparr>"

section \<open>Properties\<close>

subsection \<open>Cooldown\<close>

lemma next_increment_list:
  "foldl (\<lambda>ni u. ni[unit_value u := timetuple t ! unit_value u])
     (take 6 (timetuple datetime_min)) all_Units
   = [year t, month t, day t, hour t, minute t, second t]"
  by (simp add: all_Units_def timetuple_def datetime_min_def eval_nat_numeral)

text \<open>
  C7.  The specification asks that the cooldown of the units YEAR and MONTH succeeds
  and gives the seconds to the next year or month boundary.  In the code both branches
  build \<open>timedelta(years=1)\<close> and \<open>timedelta(months=1)\<close>, keywords that \<open>timedelta\<close>
  does not have: for every state the computation raises (\<open>TypeError\<close>, or \<open>ValueError\<close>
  from the constructor when the time is not a valid one).
\<close>

theorem calculate_cooldown_year_month_raise:
  "calculate_cooldown YEAR s
     = Inl (if valid_datetime ((latest_time s)\<lparr>microsecond := 0\<rparr>) then TypeError
            else ValueError)
   \<and> calculate_cooldown MONTH s
     = Inl (if valid_datetime ((latest_time s)\<lparr>microsecond := 0\<rparr>) then TypeError
            else ValueError)"
  by (simp add: calculate_cooldown_def next_increment_list datetime_new_def timedelta_kw_def
      valid_datetime_def Let_def)

text \<open>
  C1.  The specification asks for the seconds from the last operation to the next
  calendar boundary of the exhausted unit: with five of five daily requests used and
  the last operation at noon of 2024-01-01, that is 43200 seconds, to midnight.  The
  code copies all six components of the last operation time, so nothing is zeroed, and
  returns a whole day: 86400 seconds.
\<close>

theorem cooldown_day_limit_at_noon: "cooldown (day_limiter noon) = Inr 86400"
  by code_simp

subsection \<open>The boundary-crossed check\<close>



lemma is_after_YEAR: "is_after YEAR s now = Inl UnboundLocalError"
  by (simp add: is_after_def)




subsection \<open>Accounting of a request\<close>

text \<open>
  C2.  The specification asks that a request after the day has rolled over leaves the
  counter of DAY at 1.  From 2024-12-31 23:59:59 to 2025-01-01 00:00:00 the check
  \<open>__is_after(DAY)\<close> is false, because the month went from 12 to 1, and the counter
  goes from 5 to 6.
\<close>

theorem request_over_new_year:
  "request (Inr ()) (\<lambda>i. new_year) (day_limiter new_years_eve) no_files
     = (Inr (),
        (day_limiter new_years_eve)\<lparr>usage := [(DAY, 6)], latest_time := new_year\<rparr>,
        no_files)"
  by (simp add: request_def day_limiter_def new_year_def new_years_eve_def is_after_def
      timetuple_def eval_nat_numeral)

text \<open>
  The order of the usage dictionary matters as well: with MINUTE inserted before DAY, a
  request one day later first counts the minute and then resets it together with the day,
  so the counter of the minute ends at 0.
\<close>

lemma request_resets_counted_unit:
  "request (Inr ()) (\<lambda>i. noon\<lparr>day := 2\<rparr>)
     \<lparr>cfg_file = ''limits.cfg'',
      config = [(''LIMITS'', [(''minute'', ''8''), (''day'', ''800'')]), (''USAGE'', [])],
      usage = [(MINUTE, 3), (DAY, 5)], latest_time = noon\<rparr> no_files
     = (Inr (),
        \<lparr>cfg_file = ''limits.cfg'',
         config = [(''LIMITS'', [(''minute'', ''8''), (''day'', ''800'')]), (''USAGE'', [])],
         usage = [(MINUTE, 0), (DAY, 1)], latest_time = noon\<lparr>day := 2\<rparr>\<rparr>,
        no_files)"
  by (simp add: request_def noon_def is_after_def timetuple_def reset_usage_def all_Units_def
      eval_nat_numeral)

subsection \<open>Limit configuration\<close>

text \<open>
  C3.  The specification asks that \<open>update_limits\<close> stores a positive integer under the
  name of a valid unit.  The test \<open>value is int\<close> fails for every integer, so for the
  keyword \<open>day\<close> and any integer \<open>n\<close> nothing is stored: the attributes are unchanged,
  and the unchanged configuration is written to the file.
\<close>

theorem update_limits_stores_nothing:
  "update_limits [(''day'', PyInt n)] s fs = Inr (s, fs(cfg_file s \<mapsto> config s))"
  by (simp add: update_limits_def is_int_def)

subsection \<open>Construction\<close>

lemma sections_config_read:
  "config_read (Some raw) = Inr c \<Longrightarrow> sections c = sections raw"
  by (auto simp: config_read_def sections_def split: if_splits)

lemma map_of_clear_section [simp]:
  "map_of (clear_section name c) name' = (if name' = name then Some [] else map_of c name')"
  by (simp add: clear_section_def update_conv')



subsection \<open>Facts about every limiter\<close>

lemma keys_update_present:
  "k \<in> fst ` set al \<Longrightarrow> map fst (AList.update k v al) = map fst al"
  by (induction al) auto

lemma set_update_cases:
  "p \<in> set (AList.update k v al) \<Longrightarrow> p = (k, v) \<or> p \<in> set al"
  by (induction al) (auto split: if_splits)

lemma usage_ok_update:
  assumes "usage_ok us" and "0 \<le> n"
  shows "usage_ok (AList.update u n us)"
proof -
  have "\<forall>p \<in> set (AList.update u n us). 0 \<le> snd p"
    using assms by (auto simp: usage_ok_def list_all_iff dest!: set_update_cases)
  then show ?thesis
    using assms by (simp add: usage_ok_def distinct_update list_all_iff)
qed

lemma isdigit_py_int: "isdigit v \<Longrightarrow> py_int v = Inr (int (dec_val v))"
  by (cases v) (auto simp: py_int_def isdigit_def is_digit_def)

lemma load_usage_ok:
  "usage_ok us \<Longrightarrow> \<exists>us'. load_usage opts us = Inr us' \<and> usage_ok us'"
proof (induction opts arbitrary: us)
  case Nil
  then show ?case by simp
next
  case (Cons a opts)
  obtain k v where a: "a = (k, v)" by (cases a)
  show ?case
    using Cons.IH [OF Cons.prems] Cons.IH [OF usage_ok_update [OF Cons.prems]]
    by (auto simp: a isdigit_py_int split: option.splits)
qed

lemma init_usage_loop_ok:
  "usage_ok us \<Longrightarrow> init_usage_loop params us = Inr us' \<Longrightarrow> usage_ok us'"
proof (induction params arbitrary: us)
  case Nil
  then show ?case by simp
next
  case (Cons p params)
  then show ?case
    by (cases "parse_unit p") (auto intro: usage_ok_update)
qed

lemma usage_ok_Nil: "usage_ok []"
  by (simp add: usage_ok_def)

lemma load_usage_okD:
  "load_usage opts us = Inr us' \<Longrightarrow> usage_ok us \<Longrightarrow> usage_ok us'"
  using load_usage_ok [of us opts] by auto

lemma init_sane:
  assumes "init cfg fs now = Inr s"
  shows "sane s"
proof (cases cfg)
  case None
  with assms show ?thesis
    by (auto simp: init_def sane_def usage_ok_def clear_section_def)
next
  case (Some path)
  from assms Some show ?thesis
    by (auto simp: init_def sane_def Let_def init_usage_def update_conv' clear_section_def usage_ok_Nil
        split: sum.splits option.splits if_splits
        dest: init_usage_loop_ok [OF usage_ok_Nil] load_usage_okD [OF _ usage_ok_Nil])
qed

lemma map_of_keys: "(map_of al k \<noteq> None) = (k \<in> fst ` set al)"
  by (simp add: map_of_eq_None_iff)

lemma reset_usage_loop_keys:
  "map fst (reset_usage_loop l unit us) = map fst us"
  by (induction l arbitrary: us) (auto simp: keys_update_present map_of_eq_None_iff)

lemma reset_usage_loop_ok:
  "usage_ok us \<Longrightarrow> usage_ok (reset_usage_loop l unit us)"
  by (induction l arbitrary: us) (auto simp: usage_ok_update)

lemma reset_usage_loop_le:
  "usage_ok us \<Longrightarrow> map_of (reset_usage_loop l unit us) u = Some n'
     \<Longrightarrow> \<exists>n. map_of us u = Some n \<and> n' \<le> n"
proof (induction l arbitrary: us)
  case Nil
  then show ?case by simp
next
  case (Cons a l)
  have nonneg: "\<And>k n. map_of us k = Some n \<Longrightarrow> 0 \<le> n"
    using Cons.prems(1) by (auto simp: usage_ok_def list_all_iff dest!: map_of_SomeD)
  show ?case
  proof (cases "map_of us a = None")
    case True
    with Cons show ?thesis by simp
  next
    case False
    then obtain na where na: "map_of us a = Some na" by auto
    show ?thesis
    proof (cases "a = unit")
      case True
      with Cons.prems na nonneg [OF na] show ?thesis
        by (auto simp: update_conv' split: if_splits)
    next
      case neq: False
      have "\<exists>n. map_of (AList.update a 0 us) u = Some n \<and> n' \<le> n"
        using Cons.IH [OF usage_ok_update [OF Cons.prems(1), of 0 a]] Cons.prems(2) na neq
        by simp
      then show ?thesis
        using na nonneg [OF na] by (auto simp: update_conv' split: if_splits)
    qed
  qed
qed

lemma request_loop_frame:
  "request_loop clock i l s = (e, s')
     \<Longrightarrow> config s' = config s \<and> cfg_file s' = cfg_file s \<and> latest_time s' = latest_time s
         \<and> map fst (usage s') = map fst (usage s)"
proof (induction l arbitrary: i s)
  case Nil
  then show ?case by simp
next
  case (Cons unit l)
  show ?case
  proof (cases "is_after unit s (clock i)")
    case (Inl x)
    with Cons.prems show ?thesis by simp
  next
    case (Inr after)
    define s1 where "s1 = (if after then reset_usage unit s else s)"
    have f1: "config s1 = config s \<and> cfg_file s1 = cfg_file s \<and> latest_time s1 = latest_time s
        \<and> map fst (usage s1) = map fst (usage s)"
      by (simp add: s1_def reset_usage_def reset_usage_loop_keys)
    show ?thesis
    proof (cases "map_of (usage s1) unit")
      case None
      with Cons.prems Inr f1 show ?thesis by (simp add: s1_def Let_def)
    next
      case (Some n)
      then have "unit \<in> fst ` set (usage s1)"
        by (metis map_of_eq_None_iff option.distinct(1))
      then have k: "map fst (AList.update unit (n + 1) (usage s1)) = map fst (usage s1)"
        by (rule keys_update_present)
      have "request_loop clock (Suc i) l (s1\<lparr>usage := AList.update unit (n + 1) (usage s1)\<rparr>) = (e, s')"
        using Cons.prems Inr Some by (simp add: s1_def Let_def)
      from Cons.IH [OF this] f1 k show ?thesis by simp
    qed
  qed
qed

lemma usage_ok_nonneg: "usage_ok us \<Longrightarrow> map_of us k = Some n \<Longrightarrow> 0 \<le> n"
  by (auto simp: usage_ok_def list_all_iff dest!: map_of_SomeD)

lemma reset_usage_ok: "usage_ok (usage s) \<Longrightarrow> usage_ok (usage (reset_usage unit s))"
  by (simp add: reset_usage_def reset_usage_loop_ok)

lemma reset_usage_le:
  "usage_ok (usage s) \<Longrightarrow> map_of (usage (reset_usage unit s)) u = Some n'
     \<Longrightarrow> \<exists>n. map_of (usage s) u = Some n \<and> n' \<le> n"
  by (simp add: reset_usage_def reset_usage_loop_le)

lemma request_loop_bound:
  assumes "usage_ok (usage s)" and "distinct l" and "request_loop clock i l s = (e, s')"
  shows "usage_ok (usage s')
         \<and> (\<forall>u n'. map_of (usage s') u = Some n'
               \<longrightarrow> (\<exists>n. map_of (usage s) u = Some n \<and> n' \<le> n + (if u \<in> set l then 1 else 0)))"
  using assms
proof (induction l arbitrary: i s)
  case Nil
  then show ?case by simp
next
  case (Cons unit l)
  show ?case
  proof (cases "is_after unit s (clock i)")
    case (Inl x)
    with Cons.prems show ?thesis by simp
  next
    case (Inr after)
    define s1 where "s1 = (if after then reset_usage unit s else s)"
    have ok1: "usage_ok (usage s1)"
      using Cons.prems(1) by (simp add: s1_def reset_usage_ok)
    have le1: "\<exists>n. map_of (usage s) u = Some n \<and> n1 \<le> n" if "map_of (usage s1) u = Some n1" for u n1
      using that Cons.prems(1) reset_usage_le [of s unit u n1] by (auto simp: s1_def split: if_splits)
    show ?thesis
    proof (cases "map_of (usage s1) unit")
      case None
      with Cons.prems Inr have "s' = s1" by (simp add: s1_def Let_def)
      with ok1 le1 show ?thesis by fastforce
    next
      case (Some n)
      define s2 where "s2 = s1\<lparr>usage := AList.update unit (n + 1) (usage s1)\<rparr>"
      have n0: "0 \<le> n" using usage_ok_nonneg [OF ok1 Some] .
      have ok2: "usage_ok (usage s2)"
        using ok1 n0 by (simp add: s2_def usage_ok_update)
      have run: "request_loop clock (Suc i) l s2 = (e, s')"
        using Cons.prems Inr Some by (simp add: s1_def s2_def Let_def)
      have dl: "distinct l" and nin: "unit \<notin> set l" using Cons.prems(2) by auto
      note IH = Cons.IH [OF ok2 dl run]
      have "\<exists>n0. map_of (usage s) u = Some n0 \<and> n' \<le> n0 + (if u \<in> set (unit # l) then 1 else 0)"
        if a: "map_of (usage s') u = Some n'" for u n'
      proof -
        from IH a obtain n2 where n2: "map_of (usage s2) u = Some n2"
          and b: "n' \<le> n2 + (if u \<in> set l then 1 else 0)" by blast
        show ?thesis
        proof (cases "u = unit")
          case True
          then have "n2 = n + 1" using n2 by (simp add: s2_def update_conv')
          moreover obtain n0 where "map_of (usage s) unit = Some n0" "n \<le> n0"
            using le1 [OF Some] by blast
          ultimately show ?thesis using b nin True by auto
        next
          case False
          then have "map_of (usage s1) u = Some n2" using n2 by (simp add: s2_def update_conv')
          then obtain n0 where "map_of (usage s) u = Some n0" "n2 \<le> n0"
            using le1 by blast
          then show ?thesis using b False by auto
        qed
      qed
      with IH show ?thesis by blast
    qed
  qed
qed

lemma set_option_Some:
  "map_of c name = Some opts
     \<Longrightarrow> set_option name key v c = Inr (AList.update name (AList.update (str_lower key) v opts) c)"
  by (simp add: set_option_def)

lemma write_usage_loop_eq:
  "map_of c ''USAGE'' = Some opts
     \<Longrightarrow> write_usage_loop us c
         = Inr (AList.update ''USAGE''
                  (fold (\<lambda>p. AList.update (str_lower (unit_name (fst p))) (py_str_int (snd p))) us opts) c)"
proof (induction us arbitrary: c opts)
  case Nil
  then show ?case by (simp add: update_triv)
next
  case (Cons p us)
  obtain k v where p: "p = (k, v)" by (cases p)
  let ?o = "AList.update (str_lower (unit_name k)) (py_str_int v) opts"
  have "map_of (AList.update ''USAGE'' ?o c) ''USAGE'' = Some ?o"
    by (simp add: update_conv')
  from Cons.IH [OF this] Cons.prems show ?case
    by (simp add: p set_option_Some)
qed

lemma write_usage_eq:
  "map_of (config s) ''USAGE'' = Some opts
     \<Longrightarrow> write_usage s fs
         = (let c = AList.update ''USAGE''
                  (fold (\<lambda>p. AList.update (str_lower (unit_name (fst p))) (py_str_int (snd p)))
                     (usage s)
                     (AList.update ''latest_time'' (str_datetime (latest_time s)) opts)) (config s)
            in Inr (s\<lparr>config := c\<rparr>, fs(cfg_file s \<mapsto> c)))"
proof -
  assume a: "map_of (config s) ''USAGE'' = Some opts"
  have l: "str_lower ''latest_time'' = ''latest_time''"
    by (simp add: str_lower_def char_lower_def)
  let ?o = "AList.update ''latest_time'' (str_datetime (latest_time s)) opts"
  have "map_of (AList.update ''USAGE'' ?o (config s)) ''USAGE'' = Some ?o"
    by (simp add: update_conv')
  from write_usage_loop_eq [OF this] show ?thesis
    by (simp add: write_usage_def set_option_Some [OF a] l Let_def)
qed

lemma write_usage_Inr:
  assumes "write_usage s fs = Inr (s', fs')"
  shows "usage s' = usage s \<and> latest_time s' = latest_time s \<and> cfg_file s' = cfg_file s
         \<and> map_of (config s') ''LIMITS'' = map_of (config s) ''LIMITS''
         \<and> map_of (config s') ''USAGE'' \<noteq> None
         \<and> fs' = fs(cfg_file s \<mapsto> config s')"
proof (cases "map_of (config s) ''USAGE''")
  case None
  with assms show ?thesis by (simp add: write_usage_def set_option_def)
next
  case (Some opts)
  from assms show ?thesis
    unfolding write_usage_eq [OF Some] by (auto simp: Let_def update_conv')
qed

lemma update_limits_loop_same:
  "update_limits_loop kwargs c = Inr c' \<Longrightarrow> c' = c"
  by (induction kwargs arbitrary: c)
     (auto simp: str_attr_name_def split: if_splits option.splits)

lemma update_limits_Inr:
  "update_limits kwargs s fs = Inr (s', fs') \<Longrightarrow> s' = s"
  by (auto simp: update_limits_def split: sum.splits dest: update_limits_loop_same)

lemma request_except_frame:
  assumes "request_except e s fs = (r, s', fs')"
  shows "usage s' = usage s \<and> latest_time s' = latest_time s \<and> cfg_file s' = cfg_file s
         \<and> map_of (config s') ''LIMITS'' = map_of (config s) ''LIMITS''
         \<and> (map_of (config s) ''USAGE'' \<noteq> None \<longrightarrow> map_of (config s') ''USAGE'' \<noteq> None)"
proof (cases "is_Exception e")
  case False
  with assms show ?thesis by (auto simp: request_except_def)
next
  case True
  show ?thesis
  proof (cases "write_usage s fs")
    case (Inl x)
    with assms True show ?thesis by (auto simp: request_except_def)
  next
    case (Inr p)
    obtain s1 fs1 where p: "p = (s1, fs1)" by (cases p)
    from assms True Inr p have "s' = s1" by (auto simp: request_except_def)
    with write_usage_Inr [OF Inr [unfolded p]] show ?thesis by simp
  qed
qed

lemma request_frame:
  assumes "request func clock s fs = (r, s', fs')"
  shows "map fst (usage s') = map fst (usage s) \<and> cfg_file s' = cfg_file s
         \<and> map_of (config s') ''LIMITS'' = map_of (config s) ''LIMITS''
         \<and> (map_of (config s) ''USAGE'' \<noteq> None \<longrightarrow> map_of (config s') ''USAGE'' \<noteq> None)"
proof (cases func)
  case (Inl e)
  with assms request_except_frame [of e s fs r s' fs'] show ?thesis
    by (simp add: request_def)
next
  case (Inr out)
  obtain e s1 where l: "request_loop clock 0 (map fst (usage s)) s = (e, s1)"
    by (cases "request_loop clock 0 (map fst (usage s)) s")
  note f = request_loop_frame [OF l]
  show ?thesis
  proof (cases e)
    case None
    with assms Inr l f show ?thesis by (auto simp: request_def)
  next
    case (Some x)
    with assms Inr l have "request_except x s1 fs = (r, s', fs')" by (simp add: request_def)
    from request_except_frame [OF this] f show ?thesis by simp
  qed
qed

lemma request_bound:
  assumes "usage_ok (usage s)" and "request func clock s fs = (r, s', fs')"
  shows "usage_ok (usage s')
         \<and> (\<forall>u n'. map_of (usage s') u = Some n'
               \<longrightarrow> (\<exists>n. map_of (usage s) u = Some n \<and> n' \<le> n + 1))"
proof (cases func)
  case (Inl e)
  with assms request_except_frame [of e s fs r s' fs'] show ?thesis
    by (simp add: request_def)
next
  case (Inr out)
  obtain e s1 where l: "request_loop clock 0 (map fst (usage s)) s = (e, s1)"
    by (cases "request_loop clock 0 (map fst (usage s)) s")
  have d: "distinct (map fst (usage s))" using assms(1) by (simp add: usage_ok_def)
  note b = request_loop_bound [OF assms(1) d l]
  have b': "\<exists>n. map_of (usage s) u = Some n \<and> n' \<le> n + 1" if "map_of (usage s1) u = Some n'" for u n'
  proof -
    from b that obtain n where "map_of (usage s) u = Some n"
      "n' \<le> n + (if u \<in> set (map fst (usage s)) then 1 else 0)" by blast
    then show ?thesis by (auto split: if_splits intro: order_trans)
  qed
  have "usage s' = usage s1"
  proof (cases e)
    case None
    with assms Inr l show ?thesis by (auto simp: request_def)
  next
    case (Some x)
    with assms Inr l have "request_except x s1 fs = (r, s', fs')" by (simp add: request_def)
    from request_except_frame [OF this] show ?thesis by simp
  qed
  with b b' show ?thesis by simp
qed

lemma request_sane: "sane s \<Longrightarrow> request func clock s fs = (r, s', fs') \<Longrightarrow> sane s'"
  using request_bound [of s func clock fs r s' fs'] request_frame [of func clock s fs r s' fs']
  by (simp add: sane_def)

lemma write_usage_sane: "sane s \<Longrightarrow> write_usage s fs = Inr (s', fs') \<Longrightarrow> sane s'"
  using write_usage_Inr [of s fs s' fs'] by (simp add: sane_def)

lemma reaches_invariants:
  assumes "reaches s0 s"
  shows "(sane s0 \<longrightarrow> sane s) \<and> map fst (usage s) = map fst (usage s0)
         \<and> map_of (config s) ''LIMITS'' = map_of (config s0) ''LIMITS''
         \<and> cfg_file s = cfg_file s0"
  using assms
proof (induction rule: reaches.induct)
  case (start s0)
  show ?case by simp
next
  case (after_update_limits s0 s kwargs fs s' fs')
  then show ?case by (auto dest: update_limits_Inr)
next
  case (after_write_usage s0 s fs s' fs')
  then show ?case using write_usage_Inr [of s fs s' fs'] write_usage_sane [of s fs s' fs'] by auto
next
  case (after_request s0 s func clock fs r s' fs')
  then show ?case
    using request_frame [of func clock s fs r s' fs'] request_sane [of s func clock fs r s' fs']
    by auto
qed

lemma reaches_sane: "init cfg fs now = Inr s0 \<Longrightarrow> reaches s0 s \<Longrightarrow> sane s"
  using reaches_invariants init_sane by blast

subsection \<open>Failure of the wrapped operation\<close>

lemma parse_unit_lower_name [simp]: "parse_unit (str_lower (unit_name u)) = Some u"
  by (cases u) (simp_all add: parse_unit_def str_lower_def char_lower_def)

lemma lower_name_inj: "str_lower (unit_name u) = str_lower (unit_name v) \<Longrightarrow> u = v"
  by (metis parse_unit_lower_name option.inject)

lemma lower_name_not_latest_time: "str_lower (unit_name u) \<noteq> ''latest_time''"
  by (cases u) (simp_all add: str_lower_def char_lower_def)

lemma parse_unit_Some: "parse_unit k = Some u \<Longrightarrow> k = str_lower (unit_name u)"
  by (auto simp: parse_unit_def str_lower_def char_lower_def split: if_splits)

lemma fold_store_other:
  "k \<notin> (\<lambda>p. str_lower (unit_name (fst p))) ` set us
     \<Longrightarrow> map_of (fold (\<lambda>p. AList.update (str_lower (unit_name (fst p))) (py_str_int (snd p))) us opts) k
         = map_of opts k"
  by (induction us arbitrary: opts) (auto simp: update_conv')

lemma fold_store_entry:
  "distinct (map fst us) \<Longrightarrow> map_of us u = Some n
     \<Longrightarrow> map_of (fold (\<lambda>p. AList.update (str_lower (unit_name (fst p))) (py_str_int (snd p))) us opts)
           (str_lower (unit_name u)) = Some (py_str_int n)"
proof (induction us arbitrary: opts)
  case Nil
  then show ?case by simp
next
  case (Cons p us)
  obtain k v where p: "p = (k, v)" by (cases p)
  show ?case
  proof (cases "k = u")
    case True
    then have "u \<notin> fst ` set us" and "v = n" using Cons.prems by (auto simp: p)
    then have "str_lower (unit_name u) \<notin> (\<lambda>p. str_lower (unit_name (fst p))) ` set us"
      by (auto dest: lower_name_inj)
    from fold_store_other [OF this] True \<open>v = n\<close> show ?thesis
      by (simp add: p update_conv')
  next
    case False
    with Cons show ?thesis by (simp add: p)
  qed
qed

text \<open>
  C4.  When the wrapped operation raises an exception, \<open>request\<close> raises the same
  exception; every usage count and the last operation time are as before the call, and
  the usage has been written: the configuration file holds the section \<open>USAGE\<close> with
  the last operation time and the count of every tracked unit.  This holds in every
  state that the operations reach from a constructed limiter.
\<close>

theorem request_failure_keeps_usage:
  assumes "init cfg fs0 now = Inr s0" and "reaches s0 s" and "is_Exception e"
  shows "\<exists>s' fs' opts.
           request (Inl e) clock s fs = (Inl e, s', fs')
           \<and> usage s' = usage s \<and> latest_time s' = latest_time s
           \<and> fs' = fs(cfg_file s \<mapsto> config s')
           \<and> map_of (config s') ''USAGE'' = Some opts
           \<and> map_of opts ''latest_time'' = Some (str_datetime (latest_time s))
           \<and> (\<forall>u n. map_of (usage s) u = Some n
                 \<longrightarrow> map_of opts (str_lower (unit_name u)) = Some (py_str_int n))"
proof -
  have sane: "sane s" using assms(1,2) by (rule reaches_sane)
  then obtain opts where opts: "map_of (config s) ''USAGE'' = Some opts"
    by (auto simp: sane_def)
  have d: "distinct (map fst (usage s))" using sane by (simp add: sane_def usage_ok_def)
  define opts' where "opts' = fold (\<lambda>p. AList.update (str_lower (unit_name (fst p))) (py_str_int (snd p)))
                     (usage s) (AList.update ''latest_time'' (str_datetime (latest_time s)) opts)"
  define c where "c = AList.update ''USAGE'' opts' (config s)"
  have w: "write_usage s fs = Inr (s\<lparr>config := c\<rparr>, fs(cfg_file s \<mapsto> c))"
    by (simp add: write_usage_eq [OF opts] c_def opts'_def Let_def)
  have r: "request (Inl e) clock s fs = (Inl e, s\<lparr>config := c\<rparr>, fs(cfg_file s \<mapsto> c))"
    using assms(3) w by (simp add: request_def request_except_def)
  have "''latest_time'' \<notin> (\<lambda>p. str_lower (unit_name (fst p))) ` set (usage s)"
    using lower_name_not_latest_time by fastforce
  then have lt: "map_of opts' ''latest_time'' = Some (str_datetime (latest_time s))"
    unfolding opts'_def by (simp add: fold_store_other update_conv')
  have en: "map_of opts' (str_lower (unit_name u)) = Some (py_str_int n)"
    if "map_of (usage s) u = Some n" for u n
    unfolding opts'_def using d that by (rule fold_store_entry)
  have cu: "map_of c ''USAGE'' = Some opts'" by (simp add: c_def update_conv')
  show ?thesis
    apply (rule exI [of _ "s\<lparr>config := c\<rparr>"])
    apply (rule exI [of _ "fs(cfg_file s \<mapsto> c)"])
    apply (rule exI [of _ opts'])
    using r lt en cu by simp
qed

lemma init_day_file:
  "init (Some ''limits.cfg'') (no_files(''limits.cfg'' \<mapsto> day_file)) new_year = Inr loaded_limiter"
  by code_simp

theorem request_failure_keeps_usage_witness:
  "init (Some ''limits.cfg'') (no_files(''limits.cfg'' \<mapsto> day_file)) new_year = Inr loaded_limiter
   \<and> is_Exception (OperationError ''timeout'')
   \<and> (\<exists>s' fs'. request (Inl (OperationError ''timeout'') :: pyexc + unit) (\<lambda>i. new_year)
                   loaded_limiter no_files = (Inl (OperationError ''timeout''), s', fs')
         \<and> usage s' = [(DAY, 5)] \<and> latest_time s' = noon
         \<and> fs' ''limits.cfg'' = Some (config s'))"
proof -
  have e: "is_Exception (OperationError ''timeout'')" by simp
  from request_failure_keeps_usage [OF init_day_file reaches.start e, of "\<lambda>i. new_year" no_files]
  obtain s' fs' where
    "request (Inl (OperationError ''timeout'') :: pyexc + unit) (\<lambda>i. new_year) loaded_limiter no_files
       = (Inl (OperationError ''timeout''), s', fs')"
    "usage s' = usage loaded_limiter" "latest_time s' = latest_time loaded_limiter"
    "fs' = no_files(cfg_file loaded_limiter \<mapsto> config s')"
    by blast
  then have "request (Inl (OperationError ''timeout'') :: pyexc + unit) (\<lambda>i. new_year) loaded_limiter no_files
       = (Inl (OperationError ''timeout''), s', fs')
     \<and> usage s' = [(DAY, 5)] \<and> latest_time s' = noon \<and> fs' ''limits.cfg'' = Some (config s')"
    by (simp add: loaded_limiter_def)
  then show ?thesis
    using init_day_file e by blast
qed


subsection \<open>Tracked units and limited units\<close>



lemma tracked_keys: "tracked s u = (u \<in> set (map fst (usage s)))"
  by (simp add: tracked_def map_of_eq_None_iff)











subsection \<open>Calendar arithmetic\<close>

lemma div_step:
  assumes "0 < k"
  shows "(y::int) div k = (y - 1) div k + (if y mod k = 0 then 1 else 0)"
proof -
  define q where "q = (y - 1) div k"
  define r where "r = (y - 1) mod k"
  have y: "y = k * q + (r + 1)" by (simp add: q_def r_def)
  have r: "0 \<le> r" "r < k" using assms by (simp_all add: r_def)
  show ?thesis
  proof (cases "r + 1 = k")
    case True
    then have "y = k * (q + 1) + 0" using y by (simp add: algebra_simps)
    then have "y div k = q + 1" "y mod k = 0"
      using assms int_div_pos_eq [of y k "q + 1" 0] int_mod_pos_eq [of y k "q + 1" 0] by simp_all
    then show ?thesis by (simp add: q_def)
  next
    case False
    then have "r + 1 < k" using r by simp
    then have "y div k = q" "y mod k = r + 1"
      using y r int_div_pos_eq [of y k q "r + 1"] int_mod_pos_eq [of y k q "r + 1"] by simp_all
    then show ?thesis using r by (simp add: q_def)
  qed
qed

lemma days_before_year_Suc:
  "days_before_year (y + 1) = days_before_year y + 365 + (if is_leap y then 1 else 0)"
proof -
  define p4 p100 p400 where "p4 = (y - 1) div 4" and "p100 = (y - 1) div 100"
    and "p400 = (y - 1) div 400"
  define m4 m100 m400 where "m4 = (y mod 4 = 0)" and "m100 = (y mod 100 = 0)"
    and "m400 = (y mod 400 = 0)"
  have a: "y div 4 = p4 + (if m4 then 1 else 0)"
    unfolding p4_def m4_def by (rule div_step) simp
  have b: "y div 100 = p100 + (if m100 then 1 else 0)"
    unfolding p100_def m100_def by (rule div_step) simp
  have c: "y div 400 = p400 + (if m400 then 1 else 0)"
    unfolding p400_def m400_def by (rule div_step) simp
  have d1: "m100" if "m400"
    using that mod_mod_cancel [of 100 400 y] by (simp add: m100_def m400_def)
  have d2: "m4" if "m100"
    using that mod_mod_cancel [of 4 100 y] by (simp add: m4_def m100_def)
  have e: "days_before_year (y + 1) = y * 365 + y div 4 - y div 100 + y div 400"
    by (simp add: days_before_year_def)
  have f: "days_before_year y = (y - 1) * 365 + p4 - p100 + p400"
    by (simp only: days_before_year_def p4_def p100_def p400_def)
  have l: "is_leap y = (m4 \<and> (\<not> m100 \<or> m400))"
    by (simp only: is_leap_def m4_def m100_def m400_def)
  show ?thesis
    unfolding e f l a b c using d1 d2
    by (cases m4; cases m100; cases m400) (simp_all add: algebra_simps)
qed

lemma month_cases:
  "1 \<le> m \<Longrightarrow> m \<le> 12
     \<Longrightarrow> m = 1 \<or> m = 2 \<or> m = 3 \<or> m = 4 \<or> m = 5 \<or> m = 6 \<or> m = 7 \<or> m = 8 \<or> m = 9
         \<or> m = 10 \<or> m = 11 \<or> m = (12::int)"
  by presburger

lemma days_before_month_Suc:
  "1 \<le> m \<Longrightarrow> m < 12 \<Longrightarrow> days_before_month y (m + 1) = days_before_month y m + days_in_month y m"
  using month_cases [of m]
  by (auto simp: days_before_month_def days_in_month_def eval_nat_numeral)

lemma days_before_month_12: "days_before_month y 12 + 31 = 365 + (if is_leap y then 1 else 0)"
  by (simp add: days_before_month_def eval_nat_numeral)

lemma days_before_month_1: "days_before_month y 1 = 0"
  by (simp add: days_before_month_def)

lemma days_in_month_pos: "1 \<le> days_in_month y m"
  by (simp add: days_in_month_def)

lemma next_day_ord:
  assumes "valid_date y m d" and "next_day (y, m, d) = Some (y', m', d')"
  shows "ymd2ord y' m' d' = ymd2ord y m d + 1 \<and> valid_date y' m' d'"
proof -
  have v: "1 \<le> y" "y \<le> 9999" "1 \<le> m" "m \<le> 12" "1 \<le> d" "d \<le> days_in_month y m"
    using assms(1) by (simp_all add: valid_date_def MINYEAR_def MAXYEAR_def)
  consider (a) "d < days_in_month y m" | (b) "d = days_in_month y m" "m < 12"
    | (c) "d = days_in_month y m" "m = 12" "y < 9999"
    using assms(2) v by (auto simp: next_day_def MAXYEAR_def split: if_splits)
  then show ?thesis
  proof cases
    case a
    with assms(2) have "y' = y" "m' = m" "d' = d + 1" by (auto simp: next_day_def)
    with a v show ?thesis
      by (simp add: ymd2ord_def valid_date_def MINYEAR_def MAXYEAR_def)
  next
    case b
    with assms(2) have "y' = y" "m' = m + 1" "d' = 1" by (auto simp: next_day_def)
    with b v days_in_month_pos [of y "m + 1"] show ?thesis
      by (simp add: ymd2ord_def valid_date_def MINYEAR_def MAXYEAR_def days_before_month_Suc)
  next
    case c
    with assms(2) have e: "y' = y + 1" "m' = 1" "d' = 1" by (auto simp: next_day_def MAXYEAR_def)
    have "d = 31" using c by (simp add: days_in_month_def)
    with e c v days_before_month_12 [of y] show ?thesis
      by (simp add: ymd2ord_def valid_date_def MINYEAR_def MAXYEAR_def days_before_year_Suc
          days_before_month_1 days_in_month_def)
  qed
qed

lemma iterate_next_day_ord:
  "valid_date y m d \<Longrightarrow> iterate_day next_day n (y, m, d) = Some (y', m', d')
     \<Longrightarrow> ymd2ord y' m' d' = ymd2ord y m d + int n \<and> valid_date y' m' d'"
proof (induction n arbitrary: y m d)
  case 0
  then show ?case by simp
next
  case (Suc n)
  then obtain y1 m1 d1 where s: "next_day (y, m, d) = Some (y1, m1, d1)"
    and r: "iterate_day next_day n (y1, m1, d1) = Some (y', m', d')"
    by (cases "next_day (y, m, d)") auto
  from next_day_ord [OF Suc.prems(1) s] Suc.IH [OF _ r] show ?case by simp
qed

lemma time_recompose:
  "((r div 3600000000 * 60 + r div 60000000 mod 60) * 60 + r div 1000000 mod 60) * 1000000
           + r mod 1000000 = (r::int)"
proof -
  define a where "a = r div 1000000"
  have m1: "r div 60000000 = a div 60"
    using zdiv_zmult2_eq [of 60 r 1000000] by (simp add: a_def)
  have m2: "r div 3600000000 = a div 60 div 60"
    using zdiv_zmult2_eq [of 3600 r 1000000] zdiv_zmult2_eq [of 60 a 60] by (simp add: a_def)
  have h1: "a div 60 div 60 * 60 + a div 60 mod 60 = a div 60" by (rule div_mult_mod_eq)
  have h2: "a div 60 * 60 + a mod 60 = a" by (rule div_mult_mod_eq)
  have h3: "a * 1000000 + r mod 1000000 = r" unfolding a_def by (rule div_mult_mod_eq)
  show ?thesis
    unfolding m1 m2 a_def [symmetric] h1 h2 h3 ..
qed

lemma dt_add_instant:
  assumes "valid_datetime t" and "0 \<le> td" and "dt_add t td = Inr t'"
  shows "toordinal t' * day_us + time_us t' = toordinal t * day_us + time_us t + td"
proof -
  define total where "total = time_us t + td"
  define r where "r = total mod day_us"
  have vd: "valid_date (year t) (month t) (day t)" using assms(1) by (simp add: valid_datetime_def)
  have "0 \<le> time_us t" using assms(1) by (simp add: valid_datetime_def time_us_def)
  then have t0: "0 \<le> total" using assms(2) by (simp add: total_def)
  then have d0: "0 \<le> total div day_us" by (simp add: day_us_def pos_imp_zdiv_nonneg_iff)
  from assms(3) obtain y m d where
    sh: "shift_days (total div day_us) (year t, month t, day t) = Some (y, m, d)" and
    t': "t' = \<lparr>year = y, month = m, day = d,
                  hour = r div 3600000000,
                  minute = r div 60000000 mod 60,
                  second = r div 1000000 mod 60,
                  microsecond = r mod 1000000\<rparr>"
    by (auto simp: dt_add_def Let_def total_def r_def split: option.splits)
  from sh d0 have "iterate_day next_day (nat (total div day_us)) (year t, month t, day t) = Some (y, m, d)"
    by (simp add: shift_days_def)
  from iterate_next_day_ord [OF vd this] d0
  have ord: "toordinal t' = toordinal t + total div day_us"
    by (simp add: toordinal_def t')
  have tm: "time_us t' = r"
    unfolding time_us_def t' by (simp only: datetime.simps time_recompose)
  have "total div day_us * day_us + r = total" unfolding r_def by (rule div_mult_mod_eq)
  then show ?thesis
    unfolding ord tm by (simp add: algebra_simps total_def)
qed

subsection \<open>Cooldown and the limits\<close>

text \<open>
  When \<open>__calculate_cooldown\<close> returns, the result is the length of one unit (a second at
  least) less the microseconds of the last operation time.
\<close>

lemma calculate_cooldown_Inr:
  assumes "calculate_cooldown u s = Inr r"
  shows "\<exists>td. (case u of
                 YEAR \<Rightarrow> timedelta_kw ''years'' 1
               | MONTH \<Rightarrow> timedelta_kw ''months'' 1
               | DAY \<Rightarrow> timedelta_kw ''days'' 1
               | HOUR \<Rightarrow> timedelta_kw ''hours'' 1
               | MINUTE \<Rightarrow> timedelta_kw ''minutes'' 1
               | SECOND \<Rightarrow> timedelta_kw ''seconds'' 1) = Inr td
              \<and> 1000000 \<le> td \<and> r = total_seconds (td - microsecond (latest_time s))"
proof -
  define t where "t = latest_time s"
  define t0 where "t0 = \<lparr>year = year t, month = month t, day = day t, hour = hour t,
                          minute = minute t, second = second t, microsecond = 0\<rparr>"
  have v0: "valid_datetime t0" and n: "datetime_new [year t, month t, day t, hour t, minute t, second t] = Inr t0"
    using assms
    by (auto simp: calculate_cooldown_def next_increment_list datetime_new_def Let_def t_def t0_def
        split: if_splits)
  obtain td where td: "(case u of
                      YEAR \<Rightarrow> timedelta_kw ''years'' 1
                    | MONTH \<Rightarrow> timedelta_kw ''months'' 1
                    | DAY \<Rightarrow> timedelta_kw ''days'' 1
                    | HOUR \<Rightarrow> timedelta_kw ''hours'' 1
                    | MINUTE \<Rightarrow> timedelta_kw ''minutes'' 1
                    | SECOND \<Rightarrow> timedelta_kw ''seconds'' 1) = Inr td"
    using assms n by (auto simp: calculate_cooldown_def next_increment_list t_def split: sum.splits)
  then have td1: "1000000 \<le> td"
    by (cases u) (auto simp: timedelta_kw_def day_us_def)
  obtain t1 where a: "dt_add t0 td = Inr t1" and r: "r = total_seconds (dt_sub t1 t)"
    using assms n td
    by (auto simp: calculate_cooldown_def next_increment_list t_def split: sum.splits)
  have "toordinal t1 * day_us + time_us t1 = toordinal t0 * day_us + time_us t0 + td"
    using v0 td1 a by (intro dt_add_instant) simp_all
  moreover have "toordinal t0 = toordinal t" "time_us t0 = time_us t - microsecond t"
    by (simp_all add: t0_def toordinal_def time_us_def)
  ultimately have "dt_sub t1 t = td - microsecond t"
    by (simp add: dt_sub_def algebra_simps)
  with r td td1 show ?thesis by (auto simp: t_def)
qed

text \<open>
  So for the unit DAY the result is always 86400 seconds less the microseconds, wherever
  in the day the last operation was.
\<close>

lemma calculate_cooldown_DAY:
  assumes "calculate_cooldown DAY s = Inr r"
  shows "r = 86400 - real_of_int (microsecond (latest_time s)) / 1000000"
  using calculate_cooldown_Inr [OF assms]
  by (auto simp: timedelta_kw_def day_us_def total_seconds_def diff_divide_distrib)

lemma calculate_cooldown_pos:
  assumes "valid_datetime (latest_time s)" and "calculate_cooldown u s = Inr r"
  shows "0 < r"
proof -
  from calculate_cooldown_Inr [OF assms(2)] obtain td where
    "1000000 \<le> td" "r = total_seconds (td - microsecond (latest_time s))" by blast
  moreover have "microsecond (latest_time s) \<le> 999999"
    using assms(1) by (simp add: valid_datetime_def)
  ultimately show ?thesis by (simp add: total_seconds_def)
qed

lemma cooldown_loop_zero:
  assumes "valid_datetime (latest_time s)" and "cooldown_loop keys limits s = Inr 0"
    and "k \<in> set keys" and "parse_unit k = Some u"
  shows "\<exists>n v m. map_of (usage s) u = Some n \<and> get_option limits k = Inr v
           \<and> py_int v = Inr m \<and> n < m"
  using assms(2,3)
proof (induction keys)
  case Nil
  then show ?case by simp
next
  case (Cons a keys)
  show ?case
  proof (cases "parse_unit a")
    case None
    with Cons assms(4) show ?thesis by auto
  next
    case (Some ua)
    from Cons.prems(1) Some obtain n v m where
      f: "map_of (usage s) ua = Some n" "get_option limits a = Inr v" "py_int v = Inr m"
      by (auto split: option.splits sum.splits)
    have nm: "n < m"
    proof (rule ccontr)
      assume "\<not> n < m"
      with Cons.prems(1) Some f have "calculate_cooldown ua s = Inr 0" by simp
      from calculate_cooldown_pos [OF assms(1) this] show False by simp
    qed
    with Cons.prems(1) Some f have rest: "cooldown_loop keys limits s = Inr 0" by simp
    show ?thesis
    proof (cases "k = a")
      case True
      with Some assms(4) f nm show ?thesis by auto
    next
      case False
      with Cons.prems(2) rest Cons.IH show ?thesis by simp
    qed
  qed
qed

lemma init_minute_file:
  "init (Some ''limits.cfg'') (no_files(''limits.cfg'' \<mapsto> minute_file)) noon = Inr (minute_limiter 0)"
  by code_simp

lemma request_same_minute:
  "request (Inr ()) (\<lambda>i. noon) (minute_limiter n) fs = (Inr (), minute_limiter (n + 1), fs)"
  by (simp add: request_def minute_limiter_def is_after_def timetuple_def noon_def eval_nat_numeral)

text \<open>
  C6, as amended.  \<open>request\<close> runs the wrapped operation whatever the usage is; the
  limits are kept by a caller that asks \<open>cooldown\<close> first.  In every state reached from
  a constructed limiter: if \<open>cooldown()\<close> returns 0.0, then after the next \<open>request\<close>
  (whether it returns or raises) the usage count of every limited unit is at most its
  configured maximum.
\<close>

theorem request_after_zero_cooldown_within_limits:
  assumes "init cfg fs0 now = Inr s0" and "reaches s0 s"
    and "valid_datetime (latest_time s)" and "cooldown s = Inr 0"
    and "request func clock s fs = (r, s', fs')"
  shows "within_limits s'"
proof (cases "map_of (config s') ''LIMITS''")
  case None
  then show ?thesis by (simp add: within_limits_def)
next
  case (Some limits)
  have ok: "usage_ok (usage s)" using reaches_sane [OF assms(1,2)] by (simp add: sane_def)
  have lim: "map_of (config s) ''LIMITS'' = Some limits"
    using request_frame [OF assms(5)] Some by simp
  then have z: "cooldown_loop (map fst limits) limits s = Inr 0"
    using assms(4) by (simp add: cooldown_def)
  have "within_limit s' limits k" if k: "k \<in> set (map fst limits)" for k
  proof (cases "parse_unit k")
    case None
    then show ?thesis by (simp add: within_limit_def)
  next
    case u: (Some u)
    from cooldown_loop_zero [OF assms(3) z k u] obtain n v m where
      f: "map_of (usage s) u = Some n" "get_option limits k = Inr v" "py_int v = Inr m" "n < m"
      by blast
    show ?thesis
    proof (cases "map_of (usage s') u")
      case None
      with u show ?thesis by (simp add: within_limit_def)
    next
      case (Some n')
      with request_bound [OF ok assms(5)] f(1) have "n' \<le> n + 1" by fastforce
      with f u Some show ?thesis by (simp add: within_limit_def)
    qed
  qed
  with Some show ?thesis by (simp add: within_limits_def list_all_iff)
qed

theorem request_after_zero_cooldown_within_limits_witness:
  "init (Some ''limits.cfg'') (no_files(''limits.cfg'' \<mapsto> minute_file)) noon = Inr (minute_limiter 0)
   \<and> valid_datetime (latest_time (minute_limiter 1))
   \<and> cooldown (minute_limiter 1) = Inr 0
   \<and> request (Inr ()) (\<lambda>i. noon) (minute_limiter 1) no_files = (Inr (), minute_limiter 2, no_files)
   \<and> within_limits (minute_limiter 2)"
proof -
  have r0: "request (Inr ()) (\<lambda>i. noon) (minute_limiter 0) no_files = (Inr (), minute_limiter 1, no_files)"
    using request_same_minute [of 0 no_files] by simp
  have r1: "request (Inr ()) (\<lambda>i. noon) (minute_limiter 1) no_files = (Inr (), minute_limiter 2, no_files)"
    using request_same_minute [of 1 no_files] by simp
  have re: "reaches (minute_limiter 0) (minute_limiter 1)"
    by (rule reaches.after_request [OF reaches.start r0])
  have v: "valid_datetime (latest_time (minute_limiter 1))" by code_simp
  have c: "cooldown (minute_limiter 1) = Inr 0" by code_simp
  from request_after_zero_cooldown_within_limits [OF init_minute_file re v c r1]
  show ?thesis using init_minute_file v c r1 by simp
qed

text \<open>
  C6, as stated, fails: with two requests allowed per minute, three requests within the
  same minute all run, and the count of the minute is 3.
\<close>

theorem three_requests_exceed_limit:
  "init (Some ''limits.cfg'') (no_files(''limits.cfg'' \<mapsto> minute_file)) noon = Inr (minute_limiter 0)
   \<and> requests [\<lambda>i. noon, \<lambda>i. noon, \<lambda>i. noon] (minute_limiter 0) no_files
       = Some (minute_limiter 3, no_files)
   \<and> \<not> within_limits (minute_limiter 3)"
proof -
  have "\<not> within_limits (minute_limiter 3)" by code_simp
  then show ?thesis
    by (simp add: init_minute_file request_same_minute)
qed


subsection \<open>Decimal strings and ISO timestamps\<close>

lemma digit_char_props:
  "d < 10 \<Longrightarrow> is_digit (digit_char d) \<and> digit_val (digit_char d) = d"
proof -
  assume "d < 10"
  then have "d \<in> {0, 1, 2, 3, 4, 5, 6, 7, 8, 9}" by auto
  then show ?thesis
    by (auto simp: digit_char_def is_digit_def digit_val_def eval_nat_numeral)
qed

lemma dec_val_snoc: "dec_val (xs @ [c]) = 10 * dec_val xs + digit_val c"
  by (simp add: dec_val_def)

lemma str_nat_props:
  "list_all is_digit (str_nat n) \<and> str_nat n \<noteq> [] \<and> dec_val (str_nat n) = n"
proof (induction n rule: str_nat.induct)
  case (1 n)
  show ?case
  proof (cases "n < 10")
    case True
    then show ?thesis
      using digit_char_props [of n] by (simp add: str_nat.simps [of n] dec_val_def)
  next
    case False
    have "n mod 10 < 10" by simp
    from digit_char_props [OF this] 1 [OF False] False show ?thesis
      by (simp add: str_nat.simps [of n] dec_val_snoc)
  qed
qed

lemma isdigit_str_nat: "isdigit (str_nat n)"
  using str_nat_props [of n] by (simp add: isdigit_def)

lemma length_str_nat: "n < 10 ^ k \<Longrightarrow> 0 < k \<Longrightarrow> length (str_nat n) \<le> k"
proof (induction n arbitrary: k rule: str_nat.induct)
  case (1 n)
  show ?case
  proof (cases "n < 10")
    case True
    with 1(3) show ?thesis by (simp add: str_nat.simps [of n])
  next
    case False
    then obtain j where k: "k = Suc j" using 1(3) by (cases k) auto
    have "0 < j" using False 1(2) k by (cases j) auto
    moreover have "n div 10 < 10 ^ j" using 1(2) k by (simp add: less_mult_imp_div_less mult.commute)
    ultimately have "length (str_nat (n div 10)) \<le> j" using 1(1) [OF False] by simp
    with False k show ?thesis by (simp add: str_nat.simps [of n])
  qed
qed

lemma digit_val_zero: "digit_val (CHR ''0'') = 0"
  by (simp add: digit_val_def)

lemma dec_val_zeros: "dec_val (replicate j (CHR ''0'') @ xs) = dec_val xs"
proof -
  have "foldl (\<lambda>a c. 10 * a + digit_val c) 0 (replicate j (CHR ''0'')) = 0"
    by (induction j) (simp_all add: digit_val_zero)
  then show ?thesis by (simp add: dec_val_def)
qed

lemma zero_pad_props:
  assumes "0 \<le> i" and "i < 10 ^ k" and "0 < k"
  shows "length (zero_pad k i) = k \<and> isdigit (zero_pad k i) \<and> int (dec_val (zero_pad k i)) = i"
proof -
  have "nat i < 10 ^ k" using assms(1,2) by (simp add: nat_less_iff)
  from length_str_nat [OF this assms(3)] have l: "length (str_nat (nat i)) \<le> k" .
  have z: "is_digit (CHR ''0'')" by (simp add: is_digit_def)
  show ?thesis
    using l assms(1) str_nat_props [of "nat i"] z
    by (auto simp: zero_pad_def dec_val_zeros isdigit_def list_all_iff)
qed

lemma len2: "length xs = 2 \<Longrightarrow> \<exists>a b. xs = [a, b]"
  by (auto simp: length_Suc_conv eval_nat_numeral)

lemma len4: "length xs = 4 \<Longrightarrow> \<exists>a b c d. xs = [a, b, c, d]"
  by (auto simp: length_Suc_conv eval_nat_numeral)

lemma len6: "length xs = 6 \<Longrightarrow> \<exists>a b c d e f. xs = [a, b, c, d, e, f]"
  by (auto simp: length_Suc_conv eval_nat_numeral)

lemma iso_fields:
  assumes "length Y = 4" "length M = 2" "length D = 2" "length h = 2" "length mi = 2"
    "length se = 2" "rest = [] \<or> (\<exists>U. length U = 6 \<and> rest = ''.'' @ U)"
  defines "s \<equiv> Y @ ''-'' @ M @ ''-'' @ D @ '' '' @ h @ '':'' @ mi @ '':'' @ se @ rest"
  shows "field 0 4 s = Y \<and> field 5 2 s = M \<and> field 8 2 s = D \<and> field 11 2 s = h
         \<and> field 14 2 s = mi \<and> field 17 2 s = se
         \<and> s ! 4 = CHR ''-'' \<and> s ! 7 = CHR ''-'' \<and> s ! 10 = CHR '' '' \<and> s ! 13 = CHR '':''
         \<and> s ! 16 = CHR '':''
         \<and> (rest = [] \<longrightarrow> length s = 19)
         \<and> (\<forall>U. length U = 6 \<longrightarrow> rest = ''.'' @ U
               \<longrightarrow> length s = 26 \<and> s ! 19 = CHR ''.'' \<and> field 20 6 s = U)"
proof -
  obtain y1 y2 y3 y4 where Y: "Y = [y1, y2, y3, y4]" using len4 [OF assms(1)] by blast
  obtain m1 m2 where M: "M = [m1, m2]" using len2 [OF assms(2)] by blast
  obtain d1 d2 where D: "D = [d1, d2]" using len2 [OF assms(3)] by blast
  obtain h1 h2 where h: "h = [h1, h2]" using len2 [OF assms(4)] by blast
  obtain i1 i2 where mi: "mi = [i1, i2]" using len2 [OF assms(5)] by blast
  obtain s1 s2 where se: "se = [s1, s2]" using len2 [OF assms(6)] by blast
  show ?thesis
    unfolding s_def Y M D h mi se field_def
    by (auto dest!: len6)
qed

lemma days_in_month_le: "days_in_month y m \<le> 31"
  by (simp add: days_in_month_def)

lemma fromisoformat_str:
  assumes "valid_datetime t"
  shows "fromisoformat (str_datetime t) = Inr t"
proof -
  define Y M D h mi se where "Y = zero_pad 4 (year t)" and "M = zero_pad 2 (month t)"
    and "D = zero_pad 2 (day t)" and "h = zero_pad 2 (hour t)" and "mi = zero_pad 2 (minute t)"
    and "se = zero_pad 2 (second t)"
  define U where "U = zero_pad 6 (microsecond t)"
  define rest where "rest = (if microsecond t = 0 then [] else ''.'' @ U)"
  define s where "s = Y @ ''-'' @ M @ ''-'' @ D @ '' '' @ h @ '':'' @ mi @ '':'' @ se @ rest"
  have s: "str_datetime t = s"
    by (simp add: str_datetime_def s_def Y_def M_def D_def h_def mi_def se_def rest_def U_def)
  have v: "1 \<le> year t" "year t \<le> 9999" "1 \<le> month t" "month t \<le> 12" "1 \<le> day t"
    "day t \<le> 31" "0 \<le> hour t" "hour t \<le> 23" "0 \<le> minute t" "minute t \<le> 59"
    "0 \<le> second t" "second t \<le> 59" "0 \<le> microsecond t" "microsecond t \<le> 999999"
    using assms days_in_month_le [of "year t" "month t"]
    by (auto simp: valid_datetime_def valid_date_def MINYEAR_def MAXYEAR_def)
  have pY: "length Y = 4 \<and> isdigit Y \<and> int (dec_val Y) = year t"
    unfolding Y_def using v by (intro zero_pad_props) simp_all
  have pM: "length M = 2 \<and> isdigit M \<and> int (dec_val M) = month t"
    unfolding M_def using v by (intro zero_pad_props) simp_all
  have pD: "length D = 2 \<and> isdigit D \<and> int (dec_val D) = day t"
    unfolding D_def using v by (intro zero_pad_props) simp_all
  have ph: "length h = 2 \<and> isdigit h \<and> int (dec_val h) = hour t"
    unfolding h_def using v by (intro zero_pad_props) simp_all
  have pmi: "length mi = 2 \<and> isdigit mi \<and> int (dec_val mi) = minute t"
    unfolding mi_def using v by (intro zero_pad_props) simp_all
  have pse: "length se = 2 \<and> isdigit se \<and> int (dec_val se) = second t"
    unfolding se_def using v by (intro zero_pad_props) simp_all
  have pU: "length U = 6 \<and> isdigit U \<and> int (dec_val U) = microsecond t"
    unfolding U_def using v by (intro zero_pad_props) simp_all
  have r: "rest = [] \<or> (\<exists>U. length U = 6 \<and> rest = ''.'' @ U)"
    using pU by (auto simp: rest_def)
  have f: "field 0 4 s = Y \<and> field 5 2 s = M \<and> field 8 2 s = D \<and> field 11 2 s = h
         \<and> field 14 2 s = mi \<and> field 17 2 s = se
         \<and> s ! 4 = CHR ''-'' \<and> s ! 7 = CHR ''-'' \<and> s ! 10 = CHR '' '' \<and> s ! 13 = CHR '':''
         \<and> s ! 16 = CHR '':''
         \<and> (rest = [] \<longrightarrow> length s = 19)
         \<and> (\<forall>U. length U = 6 \<longrightarrow> rest = ''.'' @ U
               \<longrightarrow> length s = 26 \<and> s ! 19 = CHR ''.'' \<and> field 20 6 s = U)"
    unfolding s_def using pY pM pD ph pmi pse r by (intro iso_fields) simp_all
  show ?thesis
  proof (cases "microsecond t = 0")
    case True
    then have "rest = []" by (simp add: rest_def)
    with f have l: "length s = 19" by simp
    have lay: "iso_layout s"
      using f l pY pM pD ph pmi pse by (simp add: iso_layout_def)
    show ?thesis
      unfolding s fromisoformat_def using lay l f pY pM pD ph pmi pse True assms
      by (cases t) (simp add: Let_def)
  next
    case False
    then have "rest = ''.'' @ U" by (simp add: rest_def)
    with f pU have l: "length s = 26" "s ! 19 = CHR ''.''" "field 20 6 s = U" by simp_all
    have lay: "iso_layout s"
      using f l pY pM pD ph pmi pse pU by (simp add: iso_layout_def)
    show ?thesis
      unfolding s fromisoformat_def using lay l f pY pM pD ph pmi pse pU assms
      by (cases t) (simp add: Let_def)
  qed
qed

subsection \<open>Persisting and reloading\<close>

lemma char_lower_idem: "char_lower (char_lower c) = char_lower c"
  by (simp add: char_lower_def)

lemma str_lower_idem: "str_lower (str_lower k) = str_lower k"
  by (simp add: str_lower_def char_lower_idem)

lemma wf_options_update:
  "wf_options opts \<Longrightarrow> str_lower k = k \<Longrightarrow> wf_options (AList.update k v opts)"
  by (auto simp: wf_options_def distinct_update list_all_iff dest!: set_update_cases)

lemma wf_config_update:
  "wf_config c \<Longrightarrow> wf_options opts \<Longrightarrow> wf_config (AList.update name opts c)"
  by (auto simp: wf_config_def distinct_update list_all_iff dest!: set_update_cases)

lemma wf_options_Nil: "wf_options []"
  by (simp add: wf_options_def)

lemma wf_options_lower_id:
  "wf_options opts \<Longrightarrow> map (\<lambda>(k, v). (str_lower k, v)) opts = opts"
  by (induction opts) (auto simp: wf_options_def)

lemma wf_options_lower_distinct:
  "wf_options opts \<Longrightarrow> distinct (map (str_lower \<circ> fst) opts)"
proof -
  assume a: "wf_options opts"
  then have eq: "map (str_lower \<circ> fst) opts = map fst opts"
    by (auto simp: wf_options_def list_all_iff)
  show ?thesis unfolding eq using a by (simp add: wf_options_def)
qed

lemma keys_lowered:
  "map fst (map (\<lambda>(k, v). (str_lower k, v)) opts) = map (str_lower \<circ> fst) opts"
  by (induction opts) auto

lemma wf_options_lowered:
  "distinct (map (str_lower \<circ> fst) opts) \<Longrightarrow> wf_options (map (\<lambda>(k, v). (str_lower k, v)) opts)"
  unfolding wf_options_def keys_lowered by (auto simp: list_all_iff str_lower_idem)

lemma config_read_wf:
  assumes "config_read f = Inr c"
  shows "wf_config c"
proof (cases f)
  case None
  with assms show ?thesis by (simp add: config_read_def wf_config_def)
next
  case (Some raw)
  with assms have d: "distinct (map fst raw)"
    and o: "list_all (\<lambda>(name, opts). distinct (map (str_lower \<circ> fst) opts)) raw"
    and c: "c = map (\<lambda>(name, opts). (name, map (\<lambda>(k, v). (str_lower k, v)) opts)) raw"
    by (auto simp: config_read_def split: if_splits)
  have k: "map fst c = map fst raw" by (auto simp: c)
  have "wf_options (snd p)" if "p \<in> set c" for p
  proof -
    from that obtain name opts where "(name, opts) \<in> set raw"
      and p: "p = (name, map (\<lambda>(k, v). (str_lower k, v)) opts)" by (auto simp: c)
    with o have "distinct (map (str_lower \<circ> fst) opts)" by (auto simp: list_all_iff)
    then show ?thesis unfolding p by (simp add: wf_options_lowered)
  qed
  with d k show ?thesis by (simp add: wf_config_def list_all_iff)
qed

lemma config_read_id:
  assumes "wf_config c"
  shows "config_read (Some c) = Inr c"
proof -
  have a: "list_all (\<lambda>(name, opts). distinct (map (str_lower \<circ> fst) opts)) c"
    using assms by (auto simp: wf_config_def list_all_iff wf_options_lower_distinct)
  have "map (\<lambda>(name, opts). (name, map (\<lambda>(k, v). (str_lower k, v)) opts)) c = c"
    using assms by (induction c) (auto simp: wf_config_def wf_options_lower_id)
  with a assms show ?thesis by (simp add: config_read_def wf_config_def)
qed

lemma load_usage_map:
  "distinct (map fst opts) \<Longrightarrow> load_usage opts us = Inr us'
     \<Longrightarrow> map_of us' u
         = (case map_of opts (str_lower (unit_name u)) of
              None \<Rightarrow> map_of us u
            | Some v \<Rightarrow> if isdigit v then Some (int (dec_val v)) else map_of us u)"
proof (induction opts arbitrary: us)
  case Nil
  then show ?case by simp
next
  case (Cons p opts)
  obtain k v where p: "p = (k, v)" by (cases p)
  have d: "distinct (map fst opts)" and kn: "map_of opts k = None"
    using Cons.prems(1) by (auto simp: p map_of_eq_None_iff)
  show ?case
  proof (cases "parse_unit k")
    case None
    then have ne: "str_lower (unit_name u) \<noteq> k" by auto
    from Cons.prems(2) None have "load_usage opts us = Inr us'" by (simp add: p)
    from Cons.IH [OF d this] ne show ?thesis by (simp add: p)
  next
    case (Some uk)
    then have k: "k = str_lower (unit_name uk)" by (rule parse_unit_Some)
    show ?thesis
    proof (cases "isdigit v")
      case True
      with Cons.prems(2) Some
      have "load_usage opts (AList.update uk (int (dec_val v)) us) = Inr us'"
        by (simp add: p isdigit_py_int)
      from Cons.IH [OF d this] kn True show ?thesis
        by (auto simp: p k update_conv' dest: lower_name_inj split: option.splits)
    next
      case False
      with Cons.prems(2) Some have "load_usage opts us = Inr us'" by (simp add: p)
      from Cons.IH [OF d this] kn False show ?thesis
        by (auto simp: p k dest: lower_name_inj split: option.splits)
    qed
  qed
qed

lemma fromisoformat_valid: "fromisoformat str = Inr t \<Longrightarrow> valid_datetime t"
  by (auto simp: fromisoformat_def Let_def split: if_splits)

lemma wf_config_section:
  "wf_config c \<Longrightarrow> map_of c name = Some opts \<Longrightarrow> wf_options opts"
  by (auto simp: wf_config_def list_all_iff dest!: map_of_SomeD)

lemma sections_update: "name \<in> set (sections c) \<Longrightarrow> name \<in> set (sections (AList.update k v c))"
  using dom_update [of k v c] by (auto simp: sections_def)

lemma init_persistable:
  assumes "fs path = Some raw" and "''LIMITS'' \<in> set (sections raw)"
    and "init (Some path) fs now = Inr s" and "valid_datetime now"
  shows "persistable s \<and> cfg_file s = path"
proof -
  obtain c0 where c0: "config_read (Some raw) = Inr c0"
    using assms(1,3) by (cases "config_read (Some raw)") (auto simp: init_def)
  have wf: "wf_config c0" using c0 by (rule config_read_wf)
  have lim: "''LIMITS'' \<in> set (sections c0)" using assms(2) sections_config_read [OF c0] by simp
  show ?thesis
  proof (cases "map_of c0 ''USAGE''")
    case None
    with assms(1,3) c0 lim obtain s1 where
      i: "init_usage \<lparr>cfg_file = path, config = clear_section ''USAGE'' c0, usage = [],
                      latest_time = now\<rparr> = Inr s1" and "s = s1"
      by (auto simp: init_def)
    then obtain us where us: "usage s = us" "config s = clear_section ''USAGE'' c0"
      "latest_time s = now" "cfg_file s = path"
      and l: "init_usage_loop (map fst (the (map_of (clear_section ''USAGE'' c0) ''LIMITS''))) [] = Inr us"
      by (auto simp: init_usage_def split: option.splits sum.splits)
    have "usage_ok us" using init_usage_loop_ok [OF usage_ok_Nil l] .
    moreover have "wf_config (config s)"
      unfolding us clear_section_def using wf wf_options_Nil by (rule wf_config_update)
    moreover have "''LIMITS'' \<in> set (sections (config s))"
      unfolding us clear_section_def using lim by (rule sections_update)
    moreover have "usage_loaded s" by (simp add: usage_loaded_def us)
    ultimately show ?thesis using us assms(4) by (simp add: persistable_def)
  next
    case (Some opts)
    have wo: "wf_options opts" using wf Some by (rule wf_config_section)
    then have d: "distinct (map fst opts)" by (simp add: wf_options_def)
    from assms(1,3) c0 lim Some obtain t us where
      t: "(if has_option opts ''latest_time''
           then (case get_option opts ''latest_time'' of Inl e \<Rightarrow> Inl e | Inr lt \<Rightarrow> fromisoformat lt)
           else Inr now) = Inr t"
      and us: "load_usage opts [] = Inr us"
      and s: "s = \<lparr>cfg_file = path, config = c0, usage = us, latest_time = t\<rparr>"
      by (auto simp: init_def split: sum.splits)
    have vt: "valid_datetime t"
      using t assms(4) by (auto split: if_splits sum.splits dest: fromisoformat_valid)
    have ok: "usage_ok us" using us usage_ok_Nil by (rule load_usage_okD)
    have "tracked s u" if "(k, v) \<in> set opts" "parse_unit k = Some u" "isdigit v" for k v u
    proof -
      have "map_of opts (str_lower (unit_name u)) = Some v"
        using that(1,2) d parse_unit_Some by (metis map_of_is_SomeI)
      with load_usage_map [OF d us, of u] that(3) show ?thesis
        by (simp add: tracked_def s)
    qed
    then have "usage_loaded s"
      by (auto simp: usage_loaded_def s Some list_all_iff split: option.splits)
    with ok wf lim vt show ?thesis by (simp add: persistable_def s)
  qed
qed

lemma request_success:
  assumes "request (Inr x) clock s fs = (Inr out, s', fs')"
  shows "config s' = config s \<and> cfg_file s' = cfg_file s \<and> fs' = fs
         \<and> latest_time s' = clock (length (usage s))
         \<and> map fst (usage s') = map fst (usage s)"
proof -
  obtain e s1 where l: "request_loop clock 0 (map fst (usage s)) s = (e, s1)"
    by (cases "request_loop clock 0 (map fst (usage s)) s")
  have "e = None"
  proof (cases e)
    case (Some x)
    with assms l show ?thesis
      by (auto simp: request_def request_except_def split: if_splits sum.splits)
  qed simp
  with assms l request_loop_frame [OF l] show ?thesis
    by (auto simp: request_def)
qed

lemma request_persistable:
  assumes "persistable s" and "\<forall>i. valid_datetime (clock i)"
    and "request (Inr x) clock s fs = (Inr out, s', fs')"
  shows "persistable s' \<and> cfg_file s' = cfg_file s \<and> fs' = fs"
proof -
  note f = request_success [OF assms(3)]
  have ok: "usage_ok (usage s')"
    using request_bound [OF _ assms(3)] assms(1) by (simp add: persistable_def)
  have tr: "tracked s' = tracked s"
    using f by (auto simp: fun_eq_iff tracked_keys)
  have cf: "config s' = config s" using f by simp
  have "usage_loaded s' = usage_loaded s"
    unfolding usage_loaded_def tr cf ..
  with assms(1,2) f ok show ?thesis by (simp add: persistable_def)
qed

lemma requests_persistable:
  "persistable s \<Longrightarrow> \<forall>clock \<in> set clocks. \<forall>i. valid_datetime (clock i)
     \<Longrightarrow> requests clocks s fs = Some (s', fs')
     \<Longrightarrow> persistable s' \<and> cfg_file s' = cfg_file s \<and> fs' = fs"
proof (induction clocks arbitrary: s)
  case Nil
  then show ?case by simp
next
  case (Cons clock clocks)
  from Cons.prems(3) obtain out s1 fs1 where
    r: "request (Inr ()) clock s fs = (Inr out, s1, fs1)" and
    rest: "requests clocks s1 fs1 = Some (s', fs')"
    by (auto split: prod.splits sum.splits)
  from Cons.prems(2) have v: "\<forall>i. valid_datetime (clock i)" by simp
  from request_persistable [OF Cons.prems(1) v r]
  have p1: "persistable s1" "cfg_file s1 = cfg_file s" "fs1 = fs" by simp_all
  from Cons.IH [OF p1(1) _ rest [unfolded p1(3)]] Cons.prems(2) p1 show ?case by simp
qed

lemma str_lower_latest_time: "str_lower ''latest_time'' = ''latest_time''"
  by (simp add: str_lower_def char_lower_def)

lemma wf_options_fold_store:
  "wf_options opts
     \<Longrightarrow> wf_options (fold (\<lambda>p. AList.update (str_lower (unit_name (fst p))) (py_str_int (snd p))) us opts)"
  by (induction us arbitrary: opts) (simp_all add: wf_options_update str_lower_idem)

lemma py_str_int_nonneg:
  "0 \<le> n \<Longrightarrow> isdigit (py_str_int n) \<and> int (dec_val (py_str_int n)) = n"
  using str_nat_props [of "nat n"] by (simp add: py_str_int_def isdigit_str_nat)

lemma usage_loaded_USAGE: "usage_loaded s \<Longrightarrow> \<exists>opts. map_of (config s) ''USAGE'' = Some opts"
  by (cases "map_of (config s) ''USAGE''") (simp_all add: usage_loaded_def)

lemma usage_loaded_untracked:
  assumes "usage_loaded s" and "map_of (config s) ''USAGE'' = Some opts"
    and "map_of opts (str_lower (unit_name u)) = Some v" and "map_of (usage s) u = None"
  shows "\<not> isdigit v"
proof
  assume "isdigit v"
  moreover have "(str_lower (unit_name u), v) \<in> set opts" using assms(3) by (rule map_of_SomeD)
  ultimately have "tracked s u"
    using assms(1,2) by (fastforce simp: usage_loaded_def list_all_iff)
  with assms(4) show False by (simp add: tracked_def)
qed

lemma reload_after_write_usage:
  assumes "persistable s" and "write_usage s fs = Inr (s', fs')"
  shows "\<exists>s''. init (Some (cfg_file s)) fs' now' = Inr s''
           \<and> map_of (usage s'') = map_of (usage s) \<and> latest_time s'' = latest_time s"
proof -
  have ok: "usage_ok (usage s)" and wf: "wf_config (config s)"
    and lim: "''LIMITS'' \<in> set (sections (config s))" and ul: "usage_loaded s"
    and vt: "valid_datetime (latest_time s)"
    using assms(1) by (simp_all add: persistable_def)
  from ul obtain opts where opts: "map_of (config s) ''USAGE'' = Some opts"
    using usage_loaded_USAGE by blast
  define o1 where "o1 = AList.update ''latest_time'' (str_datetime (latest_time s)) opts"
  define opts' where "opts' = fold (\<lambda>p. AList.update (str_lower (unit_name (fst p))) (py_str_int (snd p)))
                     (usage s) o1"
  define c where "c = AList.update ''USAGE'' opts' (config s)"
  have w: "write_usage s fs = Inr (s\<lparr>config := c\<rparr>, fs(cfg_file s \<mapsto> c))"
    by (simp add: write_usage_eq [OF opts] c_def opts'_def o1_def Let_def)
  with assms(2) have fs': "fs' (cfg_file s) = Some c" by auto
  have wo: "wf_options opts'"
    unfolding opts'_def o1_def
    by (intro wf_options_fold_store wf_options_update wf_config_section [OF wf opts]
        str_lower_latest_time)
  have wc: "wf_config c" unfolding c_def using wf wo by (rule wf_config_update)
  have rd: "config_read (fs' (cfg_file s)) = Inr c" unfolding fs' using wc by (rule config_read_id)
  have lc: "''LIMITS'' \<in> set (sections c)" unfolding c_def using lim by (rule sections_update)
  have cu: "map_of c ''USAGE'' = Some opts'" by (simp add: c_def update_conv')
  have "''latest_time'' \<notin> (\<lambda>p. str_lower (unit_name (fst p))) ` set (usage s)"
    using lower_name_not_latest_time by fastforce
  then have lt: "map_of opts' ''latest_time'' = Some (str_datetime (latest_time s))"
    unfolding opts'_def o1_def by (simp add: fold_store_other update_conv')
  have d: "distinct (map fst (usage s))" using ok by (simp add: usage_ok_def)
  obtain us where us: "load_usage opts' [] = Inr us"
    using load_usage_ok [OF usage_ok_Nil, of opts'] by blast
  have "map_of us u = map_of (usage s) u" for u
  proof (cases "map_of (usage s) u")
    case (Some n)
    have "0 \<le> n" using ok Some by (rule usage_ok_nonneg)
    from py_str_int_nonneg [OF this] fold_store_entry [OF d Some, of o1]
      load_usage_map [OF _ us, of u] wo Some
    show ?thesis by (simp add: opts'_def wf_options_def)
  next
    case None
    then have "u \<notin> fst ` set (usage s)" by (simp add: map_of_eq_None_iff)
    then have "str_lower (unit_name u) \<notin> (\<lambda>p. str_lower (unit_name (fst p))) ` set (usage s)"
      by (auto dest: lower_name_inj)
    then have "map_of opts' (str_lower (unit_name u)) = map_of opts (str_lower (unit_name u))"
      unfolding opts'_def o1_def
      by (simp add: fold_store_other update_conv' lower_name_not_latest_time)
    with load_usage_map [OF _ us, of u] wo None usage_loaded_untracked [OF ul opts _ None]
    show ?thesis by (auto simp: wf_options_def split: option.splits)
  qed
  then have m: "map_of us = map_of (usage s)" by (simp add: fun_eq_iff)
  have "init (Some (cfg_file s)) fs' now'
          = Inr \<lparr>cfg_file = cfg_file s, config = c, usage = us, latest_time = latest_time s\<rparr>"
    using rd lc cu lt us fromisoformat_str [OF vt]
    by (simp add: init_def has_option_def get_option_def str_lower_latest_time)
  with m show ?thesis by simp
qed

lemma str_noon: "str_datetime noon = ''2024-01-01 12:00:00''"
  by (simp add: str_datetime_def zero_pad_def noon_def str_nat.simps digit_char_def)

lemma str_one_pm: "str_datetime one_pm = ''2024-01-01 13:00:00.250000''"
  by (simp add: str_datetime_def zero_pad_def one_pm_def str_nat.simps digit_char_def)

text \<open>
  C8, as amended.  For a limiter constructed from a persisted file that has a section
  \<open>LIMITS\<close>: after any number of successful requests and a flush by \<open>write_usage\<close>,
  a new limiter constructed from the same file has the same usage count for every
  unit and the same last operation time, to the microsecond.
\<close>

theorem persist_reload_round_trip:
  assumes "fs path = Some raw" and "''LIMITS'' \<in> set (sections raw)"
    and "init (Some path) fs now = Inr s0" and "valid_datetime now"
    and "\<forall>clock \<in> set clocks. \<forall>i. valid_datetime (clock i)"
    and "requests clocks s0 fs = Some (s, fs1)"
    and "write_usage s fs1 = Inr (s', fs')"
  shows "\<exists>s''. init (Some path) fs' now' = Inr s''
           \<and> map_of (usage s'') = map_of (usage s) \<and> latest_time s'' = latest_time s"
proof -
  from init_persistable [OF assms(1-4)] have p0: "persistable s0" "cfg_file s0 = path" by simp_all
  from requests_persistable [OF p0(1) assms(5,6)] p0
  have p: "persistable s" "cfg_file s = path" by simp_all
  from reload_after_write_usage [OF p(1) assms(7), of now'] p(2) show ?thesis by simp
qed

lemma request_one_pm:
  "request (Inr ()) (\<lambda>i. one_pm) loaded_limiter fs
     = (Inr (), counted_limiter [(''latest_time'', ''2024-01-01 12:00:00''), (''day'', ''5'')], fs)"
  by (simp add: request_def loaded_limiter_def counted_limiter_def day_file_def is_after_def
      timetuple_def noon_def one_pm_def eval_nat_numeral)

lemma write_counted:
  "write_usage (counted_limiter [(''latest_time'', ''2024-01-01 12:00:00''), (''day'', ''5'')]) fs
     = Inr (counted_limiter [(''latest_time'', ''2024-01-01 13:00:00.250000''), (''day'', ''6'')],
            fs(''limits.cfg'' \<mapsto>
                 [(''LIMITS'', [(''day'', ''5'')]),
                  (''USAGE'', [(''latest_time'', ''2024-01-01 13:00:00.250000''), (''day'', ''6'')])]))"
proof -
  have "py_str_int 6 = ''6''" by code_simp
  moreover have "str_lower ''DAY'' = ''day''" by code_simp
  ultimately show ?thesis
    by (simp add: write_usage_def set_option_def counted_limiter_def str_one_pm str_lower_latest_time)
qed

theorem persist_reload_round_trip_witness:
  "init (Some ''limits.cfg'') (no_files(''limits.cfg'' \<mapsto> day_file)) new_year = Inr loaded_limiter
   \<and> requests [\<lambda>i. one_pm] loaded_limiter (no_files(''limits.cfg'' \<mapsto> day_file))
       = Some (counted_limiter [(''latest_time'', ''2024-01-01 12:00:00''), (''day'', ''5'')],
               no_files(''limits.cfg'' \<mapsto> day_file))
   \<and> (\<exists>s''. init (Some ''limits.cfg'')
               (no_files(''limits.cfg'' \<mapsto>
                  [(''LIMITS'', [(''day'', ''5'')]),
                   (''USAGE'', [(''latest_time'', ''2024-01-01 13:00:00.250000''), (''day'', ''6'')])]))
               new_year = Inr s''
          \<and> map_of (usage s'') DAY = Some 6 \<and> latest_time s'' = one_pm)"
proof -
  let ?fs = "no_files(''limits.cfg'' \<mapsto> day_file)"
  have f: "?fs ''limits.cfg'' = Some day_file" by simp
  have l: "''LIMITS'' \<in> set (sections day_file)" by (simp add: sections_def day_file_def)
  have v: "valid_datetime new_year" by code_simp
  have "valid_datetime one_pm"
    by (simp add: one_pm_def valid_datetime_def valid_date_def days_in_month_def MINYEAR_def
        MAXYEAR_def)
  then have vc: "\<forall>clock \<in> set [\<lambda>i. one_pm]. \<forall>i. valid_datetime (clock i)" by simp
  have r: "requests [\<lambda>i. one_pm] loaded_limiter ?fs
       = Some (counted_limiter [(''latest_time'', ''2024-01-01 12:00:00''), (''day'', ''5'')], ?fs)"
    by (simp add: request_one_pm)
  from persist_reload_round_trip [OF f l init_day_file v vc r write_counted, of new_year]
  show ?thesis using init_day_file r by (auto simp: counted_limiter_def)
qed

text \<open>
  C8, as stated, fails for a file without the section \<open>LIMITS\<close>: the flush persists
  the last operation time (noon), and the constructor then empties \<open>USAGE\<close> and takes
  the reading of the clock instead.
\<close>

theorem reload_without_limits_forgets_time:
  "init (Some ''limits.cfg'') (no_files(''limits.cfg'' \<mapsto> usage_only_file)) noon
     = Inr (unlimited_limiter [] noon)
   \<and> requests [\<lambda>i. noon] (unlimited_limiter [] noon) (no_files(''limits.cfg'' \<mapsto> usage_only_file))
       = Some (unlimited_limiter [] noon, no_files(''limits.cfg'' \<mapsto> usage_only_file))
   \<and> write_usage (unlimited_limiter [] noon) (no_files(''limits.cfg'' \<mapsto> usage_only_file))
       = Inr (unlimited_limiter [(''latest_time'', ''2024-01-01 12:00:00'')] noon,
              no_files(''limits.cfg'' \<mapsto> [(''USAGE'', [(''latest_time'', ''2024-01-01 12:00:00'')])]))
   \<and> init (Some ''limits.cfg'')
         (no_files(''limits.cfg'' \<mapsto> [(''USAGE'', [(''latest_time'', ''2024-01-01 12:00:00'')])]))
         new_year
       = Inr (unlimited_limiter [] new_year)
   \<and> latest_time (unlimited_limiter [] new_year) \<noteq> latest_time (unlimited_limiter [] noon)"
proof -
  have a: "init (Some ''limits.cfg'') (no_files(''limits.cfg'' \<mapsto> usage_only_file)) noon
     = Inr (unlimited_limiter [] noon)" by code_simp
  have b: "requests [\<lambda>i. noon] (unlimited_limiter [] noon) (no_files(''limits.cfg'' \<mapsto> usage_only_file))
       = Some (unlimited_limiter [] noon, no_files(''limits.cfg'' \<mapsto> usage_only_file))"
    by (simp add: request_def unlimited_limiter_def)
  have c: "write_usage (unlimited_limiter [] noon) (no_files(''limits.cfg'' \<mapsto> usage_only_file))
       = Inr (unlimited_limiter [(''latest_time'', ''2024-01-01 12:00:00'')] noon,
              no_files(''limits.cfg'' \<mapsto> [(''USAGE'', [(''latest_time'', ''2024-01-01 12:00:00'')])]))"
    by (simp add: write_usage_def set_option_def unlimited_limiter_def str_noon str_lower_latest_time)
  have d: "init (Some ''limits.cfg'')
         (no_files(''limits.cfg'' \<mapsto> [(''USAGE'', [(''latest_time'', ''2024-01-01 12:00:00'')])]))
         new_year = Inr (unlimited_limiter [] new_year)" by code_simp
  have e: "latest_time (unlimited_limiter [] new_year) \<noteq> latest_time (unlimited_limiter [] noon)"
    by code_simp
  from a b c d e show ?thesis by simp
qed


end
